theory Spec2Isabelle
  imports Main "HOL-Library.Char_ord" "HOL-Library.List_Lexorder"
begin

section \<open>The path library the file reader is written against\<close>

text \<open>
  \<^verbatim>\<open>FileReader\<close> (the second document of \<^verbatim>\<open>src/libsolidity/interface/StorageInfo.cpp\<close>)
  computes on \<^verbatim>\<open>boost::filesystem::path\<close>. The library is not part of the repository, so
  this section fixes the behaviour the embedding relies on: the POSIX build of
  Boost.Filesystem, API version 3, as its reference documents it. A path is its
  character string; the library reads it as a sequence of elements: an optional root
  name (\<^verbatim>\<open>//net\<close>), an optional root directory (\<^verbatim>\<open>/\<close>), the file names between
  separators, and a final \<^verbatim>\<open>.\<close> when the string ends in a separator that is not the root
  directory. The comments of the source describe exactly this reading: a directory name
  ending in a slash has the filename dot, \<^verbatim>\<open>a/b/\<close> and \<^verbatim>\<open>a/b/.\<close> are equal under
  \<^verbatim>\<open>==\<close>, and \<^verbatim>\<open>/.\<close> differs from \<^verbatim>\<open>/\<close>.
\<close>

type_synonym path = string

definition is_separator :: "char \<Rightarrow> bool" where
  "is_separator c \<longleftrightarrow> c = CHR ''/''"

text \<open>The pieces of a string between separators (an empty piece between two adjacent ones).\<close>

primrec split_sep :: "string \<Rightarrow> string list" where
  "split_sep [] = [[]]"
| "split_sep (c # cs) =
     (if is_separator c then [] # split_sep cs
      else (case split_sep cs of [] \<Rightarrow> [[c]] | x # xs \<Rightarrow> (c # x) # xs))"

definition names :: "string \<Rightarrow> string list" where
  "names s = filter (\<lambda>x. x \<noteq> []) (split_sep s)"

fun join_names :: "string list \<Rightarrow> string" where
  "join_names [] = []"
| "join_names [x] = x"
| "join_names (x # y # ys) = x @ CHR ''/'' # join_names (y # ys)"

text \<open>
  \<^verbatim>\<open>root_name()\<close>: exactly two leading separators followed by anything but a separator
  open a network name, which runs to the next separator.
\<close>

definition root_name :: "path \<Rightarrow> path" where
  "root_name p =
     (case p of
        c1 # c2 # rest \<Rightarrow>
          if is_separator c1 \<and> is_separator c2 \<and> (rest = [] \<or> \<not> is_separator (hd rest))
          then c1 # c2 # takeWhile (\<lambda>c. \<not> is_separator c) rest
          else []
      | _ \<Rightarrow> [])"

definition after_root_name :: "path \<Rightarrow> string" where
  "after_root_name p = drop (length (root_name p)) p"

definition root_directory :: "path \<Rightarrow> path" where
  "root_directory p =
     (if after_root_name p \<noteq> [] \<and> is_separator (hd (after_root_name p)) then ''/'' else [])"

definition root_path :: "path \<Rightarrow> path" where
  "root_path p = root_name p @ root_directory p"

text \<open>\<^verbatim>\<open>relative_path()\<close>: the string from the first file name after the root path on.\<close>

definition relative_path :: "path \<Rightarrow> path" where
  "relative_path p = dropWhile is_separator (after_root_name p)"

definition ends_with_separator :: "string \<Rightarrow> bool" where
  "ends_with_separator s \<longleftrightarrow> s \<noteq> [] \<and> is_separator (last s)"

text \<open>The elements \<^verbatim>\<open>begin()\<close> to \<^verbatim>\<open>end()\<close> iterate over.\<close>

definition relative_elems :: "string \<Rightarrow> string list" where
  "relative_elems r = names r @ (if ends_with_separator r then [''.''] else [])"

definition path_elems :: "path \<Rightarrow> string list" where
  "path_elems p =
     (if root_name p = [] then [] else [root_name p]) @
     (if root_directory p = [] then [] else [''/'']) @
     relative_elems (relative_path p)"

text \<open>\<^verbatim>\<open>operator==\<close> on paths compares the element sequences, not the strings.\<close>

definition path_eq :: "path \<Rightarrow> path \<Rightarrow> bool" where
  "path_eq p q \<longleftrightarrow> path_elems p = path_elems q"

text \<open>On POSIX a path is absolute when it has a root directory.\<close>

definition is_absolute :: "path \<Rightarrow> bool" where
  "is_absolute p \<longleftrightarrow> root_directory p \<noteq> []"

text \<open>\<^verbatim>\<open>filename()\<close>: the last element, the empty path for the empty path.\<close>

definition filename :: "path \<Rightarrow> path" where
  "filename p = (if p = [] then [] else last (path_elems p))"

definition filename_is_dot :: "path \<Rightarrow> bool" where
  "filename_is_dot p \<longleftrightarrow> filename p = ''.''"

text \<open>
  \<^verbatim>\<open>filename_is_dot_dot()\<close> does not call \<^verbatim>\<open>filename()\<close>: it tests the string itself. The
  last two characters are dots and the character before them, if there is one, is a
  separator. Among the elements of a path it holds of the name \<^verbatim>\<open>..\<close> and of the root
  name \<^verbatim>\<open>//..\<close>.
\<close>

definition filename_is_dot_dot :: "path \<Rightarrow> bool" where
  "filename_is_dot_dot p \<longleftrightarrow>
     (case rev p of
        c1 # c2 # rest \<Rightarrow>
          c1 = CHR ''.'' \<and> c2 = CHR ''.'' \<and> (rest = [] \<or> is_separator (hd rest))
      | _ \<Rightarrow> False)"

definition strip_trailing_separators :: "string \<Rightarrow> string" where
  "strip_trailing_separators s = rev (dropWhile is_separator (rev s))"

definition strip_trailing_name :: "string \<Rightarrow> string" where
  "strip_trailing_name s = rev (dropWhile (\<lambda>c. \<not> is_separator c) (rev s))"

text \<open>
  \<^verbatim>\<open>parent_path()\<close>: the string up to the last element, without the separators before
  that element unless they are the root directory; empty for a path of one element.
\<close>

definition parent_path :: "path \<Rightarrow> path" where
  "parent_path p =
     (let rel = relative_path p in
      if rel = [] then (if root_name p \<noteq> [] \<and> root_directory p \<noteq> [] then root_name p else [])
      else
        (let rel' = (if ends_with_separator rel then strip_trailing_separators rel
                     else strip_trailing_separators (strip_trailing_name rel))
         in if rel' = [] then root_path p
            else take (length p - length rel) p @ rel'))"

text \<open>
  \<^verbatim>\<open>operator/\<close> of version 3 concatenates: a separator is inserted unless the right
  operand begins with one or the left operand is empty or ends in one. An empty right
  operand leaves the left one as it is.
\<close>

definition path_append :: "path \<Rightarrow> path \<Rightarrow> path" where
  "path_append p q =
     (if q = [] then p
      else if is_separator (hd q) then p @ q
      else if p \<noteq> [] \<and> \<not> is_separator (last p) then p @ CHR ''/'' # q
      else p @ q)"

text \<open>
  \<^verbatim>\<open>lexically_normal()\<close>: dot elements are dropped, a name is cancelled by a following
  dot-dot, a dot-dot that has nothing to cancel stays, and the result is composed with
  separators. A path that ended in a separator or in a dot element gets one final dot
  element, as does a path that would otherwise normalise to the empty path.
\<close>

definition normal_step :: "string list \<Rightarrow> string \<Rightarrow> string list" where
  "normal_step st e =
     (if e = ''.'' then st
      else if e = ''..'' \<and> st \<noteq> [] \<and> hd st \<noteq> ''..'' then tl st
      else e # st)"

definition lexically_normal :: "path \<Rightarrow> path" where
  "lexically_normal p =
     (let root = root_path p; rel = relative_path p in
      if rel = [] then root
      else
        (let ns = names rel;
             st = rev (foldl normal_step [] ns);
             dot = (ends_with_separator rel \<or> last ns = ''.'' \<or> (root = [] \<and> st = []))
         in root @ join_names (st @ (if dot then [''.''] else []))))"

text \<open>
  \<^verbatim>\<open>lexically_relative(base)\<close> (Boost 1.72 and later): the common leading elements are
  dropped; what is left of the base is counted (a dot-dot counts down, a dot not at
  all), and the result climbs that many levels before it continues with what is left of
  the path.
\<close>

fun mismatch :: "string list \<Rightarrow> string list \<Rightarrow> string list \<times> string list" where
  "mismatch (x # xs) (y # ys) = (if x = y then mismatch xs ys else (x # xs, y # ys))"
| "mismatch xs ys = (xs, ys)"

definition base_levels :: "string list \<Rightarrow> int" where
  "base_levels es =
     foldl (\<lambda>n e. if e = ''..'' then n - 1 else if e \<noteq> [] \<and> e \<noteq> ''.'' then n + 1 else n) 0 es"

definition lexically_relative :: "path \<Rightarrow> path \<Rightarrow> path" where
  "lexically_relative p base =
     (let es = path_elems p; bs = path_elems base; (rp, rb) = mismatch es bs in
      if rp = es \<and> rb = bs then []
      else if rp = [] \<and> rb = [] then ''.''
      else
        (let n = base_levels rb in
         if n < 0 then []
         else if n = 0 \<and> rp = [] then ''.''
         else foldl path_append [] (replicate (nat n) ''..'' @ rp)))"

text \<open>\<^verbatim>\<open>generic_string()\<close>: on POSIX the string itself.\<close>

definition generic_string :: "path \<Rightarrow> string" where
  "generic_string p = p"

text \<open>
  \<^verbatim>\<open>absolute(p, base)\<close> for an absolute base: an absolute path stays, the empty path is
  the base, and otherwise the result takes from the base what the path lacks (root
  directory and the base's relative path).
\<close>

definition absolute :: "path \<Rightarrow> path \<Rightarrow> path" where
  "absolute p base =
     (if is_absolute p then p
      else if p = [] then base
      else
        (let res = (if root_name p \<noteq> [] then root_name p else root_name base);
             res' = path_append (res @ root_directory base) (relative_path base)
         in path_append res' (relative_path p)))"

section \<open>The environment: exceptions and the file system\<close>

text \<open>
  The exceptions the code can meet, by the \<^verbatim>\<open>catch\<close> clause of \<^verbatim>\<open>readFile\<close> that
  receives them: \<^verbatim>\<open>InternalCompilerError\<close> (thrown by \<^verbatim>\<open>solAssert\<close> and by the check
  of the callback kind) and every other \<^verbatim>\<open>util::Exception\<close> go to the first clause, a
  \<^verbatim>\<open>std::exception\<close> such as \<^verbatim>\<open>filesystem_error\<close> to the second, anything else to the
  third.
\<close>

datatype exn =
    InternalCompilerError string
  | UtilException string
  | StdException string
  | OtherException

datatype file_type = status_error | file_not_found | regular_file | directory_file | other_file

text \<open>
  What the operating system and the helpers outside \<^verbatim>\<open>src/\<close> answer: the working
  directory, the status of a path, the canonical form of an existing path (\<^verbatim>\<open>None\<close>
  when the call fails), \<^verbatim>\<open>readFileAsString\<close> of \<^verbatim>\<open>libsolutil/CommonIO\<close>, and
  \<^verbatim>\<open>boost::diagnostic_information\<close>.
\<close>

record filesystem =
  current_path :: path
  status :: "path \<Rightarrow> file_type"
  canonical :: "path \<Rightarrow> path option"
  readFileAsString :: "path \<Rightarrow> exn + string"
  diagnostic_information :: "exn \<Rightarrow> string"

definition solAssert :: "bool \<Rightarrow> exn + unit" where
  "solAssert c = (if c then Inr () else Inl (InternalCompilerError []))"

definition fs_exists :: "filesystem \<Rightarrow> path \<Rightarrow> exn + bool" where
  "fs_exists fs p =
     (case status fs p of
        status_error \<Rightarrow> Inl (StdException ''boost::filesystem::status'')
      | file_not_found \<Rightarrow> Inr False
      | _ \<Rightarrow> Inr True)"

definition is_regular_file :: "filesystem \<Rightarrow> path \<Rightarrow> exn + bool" where
  "is_regular_file fs p =
     (case status fs p of
        status_error \<Rightarrow> Inl (StdException ''boost::filesystem::status'')
      | regular_file \<Rightarrow> Inr True
      | _ \<Rightarrow> Inr False)"

lemma length_root_path_relative: "length (root_path p) + length (relative_path p) \<le> length p"
proof -
  have a: "length (relative_path p) \<le> length (after_root_name p) - length (root_directory p)"
  proof (cases "after_root_name p")
    case Nil
    then show ?thesis by (simp add: relative_path_def)
  next
    case (Cons c cs)
    have "length (dropWhile is_separator cs) \<le> length cs"
      by (rule length_dropWhile_le)
    then show ?thesis using Cons
      by (auto simp: relative_path_def root_directory_def)
  qed
  have b: "length (root_directory p) \<le> length (after_root_name p)"
    by (cases "after_root_name p") (auto simp: root_directory_def)
  have c: "length (root_name p) \<le> length p"
    by (auto simp: root_name_def split: list.splits intro: le_SucI length_takeWhile_le)
  have d: "length (after_root_name p) = length p - length (root_name p)"
    by (simp add: after_root_name_def)
  show ?thesis using a b c d by (simp add: root_path_def)
qed

lemma length_strip_trailing_separators:
  "ends_with_separator s \<Longrightarrow> length (strip_trailing_separators s) < length s"
  by (cases s rule: rev_cases)
     (auto simp: ends_with_separator_def strip_trailing_separators_def less_Suc_eq_le
           intro: order_trans [OF length_dropWhile_le])

lemma length_strip_trailing_separators_le: "length (strip_trailing_separators s) \<le> length s"
  using length_dropWhile_le [of is_separator "rev s"] by (simp add: strip_trailing_separators_def)

lemma length_strip_trailing_name:
  "s \<noteq> [] \<Longrightarrow> \<not> ends_with_separator s \<Longrightarrow> length (strip_trailing_name s) < length s"
  by (cases s rule: rev_cases)
     (auto simp: ends_with_separator_def strip_trailing_name_def less_Suc_eq_le
           intro: order_trans [OF length_dropWhile_le])

lemma length_parent_path: "p \<noteq> [] \<Longrightarrow> length (parent_path p) < length p"
proof -
  assume ne: "p \<noteq> []"
  let ?rel = "relative_path p"
  have le: "length (root_path p) + length ?rel \<le> length p" by (rule length_root_path_relative)
  show ?thesis
  proof (cases "?rel = []")
    case True
    then show ?thesis using ne le
      by (cases "root_directory p") (auto simp: parent_path_def root_path_def)
  next
    case False
    define rel' where "rel' = (if ends_with_separator ?rel then strip_trailing_separators ?rel
                     else strip_trailing_separators (strip_trailing_name ?rel))"
    have lt: "length rel' < length ?rel"
    proof (cases "ends_with_separator ?rel")
      case True
      then show ?thesis by (simp add: rel'_def length_strip_trailing_separators)
    next
      case no: False
      have "length (strip_trailing_separators (strip_trailing_name ?rel))
              \<le> length (strip_trailing_name ?rel)"
        by (rule length_strip_trailing_separators_le)
      also have "\<dots> < length ?rel" using False no by (rule length_strip_trailing_name)
      finally show ?thesis using no by (simp add: rel'_def)
    qed
    have pp: "parent_path p = (if rel' = [] then root_path p
                                else take (length p - length ?rel) p @ rel')"
      using False by (simp add: parent_path_def rel'_def Let_def)
    show ?thesis
    proof (cases "rel' = []")
      case True
      then show ?thesis using pp le False by (cases "?rel") auto
    next
      case False
      then show ?thesis using pp lt le by auto
    qed
  qed
qed

text \<open>
  \<^verbatim>\<open>weakly_canonical(p)\<close>: the longest leading part of \<^verbatim>\<open>p\<close> that exists is found by
  removing file names from the end; it is made canonical by the operating system and
  the removed elements are appended again, normalised lexically when a dot or dot-dot
  is among them. \<^verbatim>\<open>find_head\<close> is the first loop; its counter is the number of
  elements removed.
\<close>

function find_head :: "filesystem \<Rightarrow> path \<Rightarrow> nat \<Rightarrow> exn + (path \<times> nat)" where
  "find_head fs head k =
     (if head = [] then Inr (head, k)
      else (case status fs head of
              status_error \<Rightarrow> Inl (StdException ''boost::filesystem::weakly_canonical'')
            | file_not_found \<Rightarrow> find_head fs (parent_path head) (Suc k)
            | _ \<Rightarrow> Inr (head, k)))"
  by pat_completeness auto
termination
  by (relation "measure (\<lambda>(fs, head, k). length head)") (auto simp: length_parent_path)

definition weakly_canonical :: "filesystem \<Rightarrow> path \<Rightarrow> exn + path" where
  "weakly_canonical fs p =
     (case find_head fs p 0 of
        Inl e \<Rightarrow> Inl e
      | Inr (head, k) \<Rightarrow>
          if head = [] then Inr (lexically_normal p)
          else
            (let es = path_elems p;
                 tail_elems = drop (length es - k) es;
                 tail = foldl path_append [] tail_elems;
                 tail_has_dots = list_ex (\<lambda>e. e = ''.'' \<or> e = ''..'') tail_elems
             in case canonical fs head of
                  None \<Rightarrow> Inl (StdException ''boost::filesystem::weakly_canonical'')
                | Some h \<Rightarrow>
                    if tail = [] then Inr h
                    else if tail_has_dots then Inr (lexically_normal (path_append h tail))
                    else Inr (path_append h tail)))"



section \<open>The file reader\<close>

subsection \<open>UNC root names\<close>

text \<open>
  \<^verbatim>\<open>rootName[i]\<close> on a \<^verbatim>\<open>std::string\<close>: the character at \<^verbatim>\<open>i\<close> below the size, the
  terminating null character at the size itself, and no defined result beyond it
  (\<^verbatim>\<open>None\<close>).
\<close>

definition string_at :: "string \<Rightarrow> nat \<Rightarrow> char option" where
  "string_at s i =
     (if i < length s then Some (s ! i)
      else if i = length s then Some (CHR 0x00)
      else None)"

text \<open>
  \<^verbatim>\<open>&&\<close> and \<^verbatim>\<open>||\<close> evaluate their right operand only when the left one does not
  decide the result; an operand that reads out of range makes the whole expression
  undefined only when it is evaluated.
\<close>

definition sc_and :: "bool option \<Rightarrow> bool option \<Rightarrow> bool option" where
  "sc_and a b = (case a of None \<Rightarrow> None | Some False \<Rightarrow> Some False | Some True \<Rightarrow> b)"

definition sc_or :: "bool option \<Rightarrow> bool option \<Rightarrow> bool option" where
  "sc_or a b = (case a of None \<Rightarrow> None | Some True \<Rightarrow> Some True | Some False \<Rightarrow> b)"

definition chars_differ :: "char option \<Rightarrow> char option \<Rightarrow> bool option" where
  "chars_differ a b = (case (a, b) of (Some x, Some y) \<Rightarrow> Some (x \<noteq> y) | _ \<Rightarrow> None)"

definition char_is :: "char option \<Rightarrow> char \<Rightarrow> bool option" where
  "char_is a c = (case a of Some x \<Rightarrow> Some (x = c) | None \<Rightarrow> None)"

text \<open>
  The return expression of \<^verbatim>\<open>FileReader::isUNCPath\<close> over the root name; \<^verbatim>\<open>win32\<close>
  says whether the branch under \<^verbatim>\<open>#if defined(_WIN32)\<close> is compiled in.
\<close>

definition isUNCPath_rootName :: "bool \<Rightarrow> string \<Rightarrow> bool option" where
  "isUNCPath_rootName win32 rootName =
     sc_and
       (sc_or (Some (length rootName = 2))
          (sc_and (Some (length rootName > 2))
             (chars_differ (string_at rootName 2) (string_at rootName 1))))
       (sc_or
          (sc_and (char_is (string_at rootName 0) (CHR ''/''))
                  (char_is (string_at rootName 1) (CHR ''/'')))
          (if win32
           then sc_and (char_is (string_at rootName 0) (CHR 0x5C))
                       (char_is (string_at rootName 1) (CHR 0x5C))
           else Some False))"

definition isUNCPath :: "path \<Rightarrow> bool" where
  "isUNCPath p \<longleftrightarrow> isUNCPath_rootName False (root_name p) = Some True"

subsection \<open>Dot-dot segments\<close>

definition hasDotDotSegments :: "path \<Rightarrow> bool" where
  "hasDotDotSegments p = list_ex filename_is_dot_dot (path_elems p)"

definition absoluteDotDotPrefix :: "path \<Rightarrow> exn + path" where
  "absoluteDotDotPrefix p =
     (case solAssert (is_absolute p \<or> path_eq (root_path p) ''/'') of
        Inl e \<Rightarrow> Inl e
      | Inr _ \<Rightarrow>
          Inr (foldl (\<lambda>prefix segment.
                        if filename_is_dot_dot segment then path_append prefix segment else prefix)
                 [] (path_elems (relative_path p))))"

subsection \<open>Normalisation\<close>

text \<open>
  \<^verbatim>\<open>FileReader::normalizeCLIPathForVFS(_path, _resolveSymlinks)\<close>, statement by
  statement. Each \<^verbatim>\<open>solAssert\<close> and each failing file system call is an \<^verbatim>\<open>Inl\<close>.
\<close>

definition normalizeCLIPathForVFS :: "filesystem \<Rightarrow> path \<Rightarrow> bool \<Rightarrow> exn + path" where
  "normalizeCLIPathForVFS fs p resolveSymlinks =
     (case weakly_canonical fs (current_path fs) of
        Inl e \<Rightarrow> Inl e
      | Inr canonicalWorkDir \<Rightarrow>
          (let absolutePath = absolute p canonicalWorkDir in
           case (if resolveSymlinks
                 then (case weakly_canonical fs absolutePath of
                         Inl e \<Rightarrow> Inl e
                       | Inr wc \<Rightarrow>
                           if (path_eq p ''.'' \<or> path_eq p ''./'' \<or> path_eq p ''../'')
                              \<and> \<not> ends_with_separator (generic_string wc)
                           then Inr (path_append (parent_path wc) (filename wc @ ''/''))
                           else Inr wc)
                 else Inr (lexically_normal absolutePath)) of
             Inl e \<Rightarrow> Inl e
           | Inr normalizedPath \<Rightarrow>
               (case solAssert (is_absolute normalizedPath
                                \<or> path_eq (root_path normalizedPath) ''/'') of
                  Inl e \<Rightarrow> Inl e
                | Inr _ \<Rightarrow>
                    (let normalizedRootPath =
                           (if \<not> isUNCPath normalizedPath
                               \<and> path_eq (root_path normalizedPath) (root_path canonicalWorkDir)
                            then ''/'' else root_path normalizedPath)
                     in case absoluteDotDotPrefix normalizedPath of
                          Inl e \<Rightarrow> Inl e
                        | Inr dotDotPrefix \<Rightarrow>
                            (let normalizedPathNoDotDot =
                                   (if dotDotPrefix = []
                                    then path_append normalizedRootPath
                                           (relative_path normalizedPath)
                                    else path_append normalizedRootPath
                                           (lexically_relative normalizedPath
                                              (path_append (root_path normalizedPath)
                                                 dotDotPrefix)))
                             in case solAssert (\<not> hasDotDotSegments normalizedPathNoDotDot) of
                                  Inl e \<Rightarrow> Inl e
                                | Inr _ \<Rightarrow>
                                    if path_eq (generic_string normalizedPathNoDotDot) ''/.''
                                    then Inr ''/''
                                    else Inr (generic_string normalizedPathNoDotDot))))))"

subsection \<open>The prefix guard\<close>

definition isPathPrefix :: "path \<Rightarrow> path \<Rightarrow> exn + bool" where
  "isPathPrefix prefix p =
     (case solAssert (prefix \<noteq> [] \<and> p \<noteq> []) of Inl e \<Rightarrow> Inl e | Inr _ \<Rightarrow>
     (case solAssert (is_absolute prefix \<or> isUNCPath prefix \<or> path_eq (root_path prefix) ''/'')
        of Inl e \<Rightarrow> Inl e | Inr _ \<Rightarrow>
     (case solAssert (is_absolute p \<or> isUNCPath p \<or> path_eq (root_path p) ''/'')
        of Inl e \<Rightarrow> Inl e | Inr _ \<Rightarrow>
     (case solAssert (path_eq prefix (lexically_normal prefix) \<and> path_eq p (lexically_normal p))
        of Inl e \<Rightarrow> Inl e | Inr _ \<Rightarrow>
     (case solAssert (\<not> hasDotDotSegments prefix \<and> \<not> hasDotDotSegments p)
        of Inl e \<Rightarrow> Inl e | Inr _ \<Rightarrow>
      (let strippedPath =
             lexically_relative p (if filename_is_dot prefix then parent_path prefix else prefix)
       in Inr (strippedPath \<noteq> [] \<and> hd (path_elems strippedPath) \<noteq> ''..'')))))))"

definition stripPrefixIfPresent :: "path \<Rightarrow> path \<Rightarrow> exn + path" where
  "stripPrefixIfPresent prefix p =
     (case isPathPrefix prefix p of
        Inl e \<Rightarrow> Inl e
      | Inr False \<Rightarrow> Inr p
      | Inr True \<Rightarrow>
          (let strippedPath =
                 lexically_relative p
                   (if filename_is_dot prefix then parent_path prefix else prefix)
           in case solAssert (strippedPath = [] \<or> hd (path_elems strippedPath) \<noteq> ''..'') of
                Inl e \<Rightarrow> Inl e
              | Inr _ \<Rightarrow> Inr strippedPath))"

subsection \<open>The reader's state\<close>

text \<open>
  \<^verbatim>\<open>FileSystemPathSet\<close> is a \<^verbatim>\<open>std::set\<close> of paths: it iterates in the order of the
  paths' \<^verbatim>\<open>operator<\<close> (the element sequences compared lexicographically) and holds no
  two paths that are equal as element sequences. The model is the list of the set's
  members in iteration order.
\<close>

definition set_insert :: "path \<Rightarrow> path list \<Rightarrow> path list" where
  "set_insert p S = (if list_ex (\<lambda>q. path_eq q p) S then S else insort_key path_elems p S)"

definition set_plus :: "path list \<Rightarrow> path list \<Rightarrow> path list" where
  "set_plus S ps = foldl (\<lambda>S' p. set_insert p S') S ps"

record FileReader =
  m_basePath :: path
  m_includePaths :: "path list"
  m_allowedDirectories :: "path list"
  m_sourceCodes :: "string \<rightharpoonup> string"

record Result =
  success :: bool
  responseOrErrorMessage :: string

text \<open>
  Modelled from the spec: the declarations of \<^verbatim>\<open>FileReader.h\<close> and \<^verbatim>\<open>ReadFile.h\<close> are
  not under \<^verbatim>\<open>src/\<close>. The capability tag \<^verbatim>\<open>ReadCallback::kindString(Kind::ReadFile)\<close>
  is the literal of the spec's scenario A, and a call of \<^verbatim>\<open>normalizeCLIPathForVFS\<close>
  with one argument does not resolve symlinks.
\<close>

definition kindString_ReadFile :: string where
  "kindString_ReadFile = ''source''"

definition default_resolveSymlinks :: bool where
  "default_resolveSymlinks = False"

definition setBasePath :: "filesystem \<Rightarrow> path \<Rightarrow> FileReader \<Rightarrow> exn + FileReader" where
  "setBasePath fs p fr =
     (if p = [] then
        (case solAssert (m_includePaths fr = []) of
           Inl e \<Rightarrow> Inl e
         | Inr _ \<Rightarrow> Inr (fr\<lparr>m_basePath := []\<rparr>))
      else
        (case normalizeCLIPathForVFS fs p default_resolveSymlinks of
           Inl e \<Rightarrow> Inl e
         | Inr n \<Rightarrow> Inr (fr\<lparr>m_basePath := n\<rparr>)))"

definition addIncludePath :: "filesystem \<Rightarrow> path \<Rightarrow> FileReader \<Rightarrow> exn + FileReader" where
  "addIncludePath fs p fr =
     (case solAssert (m_basePath fr \<noteq> []) of Inl e \<Rightarrow> Inl e | Inr _ \<Rightarrow>
     (case solAssert (p \<noteq> []) of Inl e \<Rightarrow> Inl e | Inr _ \<Rightarrow>
     (case normalizeCLIPathForVFS fs p default_resolveSymlinks of
        Inl e \<Rightarrow> Inl e
      | Inr n \<Rightarrow> Inr (fr\<lparr>m_includePaths := m_includePaths fr @ [n]\<rparr>))))"

definition allowDirectory :: "path \<Rightarrow> FileReader \<Rightarrow> exn + FileReader" where
  "allowDirectory p fr =
     (case solAssert (p \<noteq> []) of
        Inl e \<Rightarrow> Inl e
      | Inr _ \<Rightarrow> Inr (fr\<lparr>m_allowedDirectories := set_insert p (m_allowedDirectories fr)\<rparr>))"

fun addIncludePaths :: "filesystem \<Rightarrow> path list \<Rightarrow> FileReader \<Rightarrow> exn + FileReader" where
  "addIncludePaths fs [] fr = Inr fr"
| "addIncludePaths fs (p # ps) fr =
     (case addIncludePath fs p fr of Inl e \<Rightarrow> Inl e | Inr fr' \<Rightarrow> addIncludePaths fs ps fr')"

text \<open>The constructor: \<^verbatim>\<open>_allowedDirectories\<close> is a set already.\<close>

definition new_FileReader ::
  "filesystem \<Rightarrow> path \<Rightarrow> path list \<Rightarrow> path list \<Rightarrow> exn + FileReader" where
  "new_FileReader fs basePath includePaths allowedDirectories =
     (case setBasePath fs basePath
             \<lparr>m_basePath = [], m_includePaths = [],
              m_allowedDirectories = allowedDirectories, m_sourceCodes = Map.empty\<rparr> of
        Inl e \<Rightarrow> Inl e
      | Inr fr \<Rightarrow>
          (case addIncludePaths fs includePaths fr of
             Inl e \<Rightarrow> Inl e
           | Inr fr' \<Rightarrow>
               (case solAssert (list_all (\<lambda>allowedDir. allowedDir \<noteq> []) (m_allowedDirectories fr')) of
                  Inl e \<Rightarrow> Inl e
                | Inr _ \<Rightarrow> Inr fr')))"

subsection \<open>Source unit names\<close>

text \<open>The loop of \<^verbatim>\<open>cliPathToSourceUnitName\<close>: the first prefix that matches is stripped.\<close>

fun strip_first_prefix :: "path list \<Rightarrow> path \<Rightarrow> exn + path" where
  "strip_first_prefix [] normalizedPath = Inr normalizedPath"
| "strip_first_prefix (prefix # prefixes) normalizedPath =
     (case isPathPrefix prefix normalizedPath of
        Inl e \<Rightarrow> Inl e
      | Inr True \<Rightarrow> stripPrefixIfPresent prefix normalizedPath
      | Inr False \<Rightarrow> strip_first_prefix prefixes normalizedPath)"

definition cliPathToSourceUnitName :: "filesystem \<Rightarrow> FileReader \<Rightarrow> path \<Rightarrow> exn + string" where
  "cliPathToSourceUnitName fs fr cliPath =
     (case (if m_basePath fr = [] then normalizeCLIPathForVFS fs ''.'' default_resolveSymlinks
            else Inr (m_basePath fr)) of
        Inl e \<Rightarrow> Inl e
      | Inr first \<Rightarrow>
          (let prefixes = first # m_includePaths fr in
           case normalizeCLIPathForVFS fs cliPath default_resolveSymlinks of
             Inl e \<Rightarrow> Inl e
           | Inr normalizedPath \<Rightarrow>
               (case strip_first_prefix prefixes normalizedPath of
                  Inl e \<Rightarrow> Inl e
                | Inr stripped \<Rightarrow> Inr (generic_string stripped))))"

definition setSource :: "filesystem \<Rightarrow> path \<Rightarrow> string \<Rightarrow> FileReader \<Rightarrow> exn + FileReader" where
  "setSource fs p source fr =
     (case cliPathToSourceUnitName fs fr p of
        Inl e \<Rightarrow> Inl e
      | Inr name \<Rightarrow> Inr (fr\<lparr>m_sourceCodes := (m_sourceCodes fr)(name \<mapsto> source)\<rparr>))"

definition setStdin :: "string \<Rightarrow> FileReader \<Rightarrow> FileReader" where
  "setStdin source fr = fr\<lparr>m_sourceCodes := (m_sourceCodes fr)(''<stdin>'' \<mapsto> source)\<rparr>"

definition setSources :: "(string \<rightharpoonup> string) \<Rightarrow> FileReader \<Rightarrow> FileReader" where
  "setSources sources fr = fr\<lparr>m_sourceCodes := sources\<rparr>"

subsection \<open>Reading a file\<close>

definition strip_file_scheme :: "string \<Rightarrow> string" where
  "strip_file_scheme sourceUnitName =
     (if take 7 sourceUnitName = ''file://'' then drop 7 sourceUnitName else sourceUnitName)"

text \<open>
  The first loop of \<^verbatim>\<open>readFile\<close>: \<^verbatim>\<open>canonicalPath\<close> is assigned for each prefix in
  turn, and the loop is left at the first one that exists.
\<close>

fun resolve_candidates :: "filesystem \<Rightarrow> string \<Rightarrow> path list \<Rightarrow> path \<Rightarrow> exn + path" where
  "resolve_candidates fs strippedSourceUnitName [] canonicalPath = Inr canonicalPath"
| "resolve_candidates fs strippedSourceUnitName (prefix # prefixes) canonicalPath =
     (case normalizeCLIPathForVFS fs (path_append prefix strippedSourceUnitName) True of
        Inl e \<Rightarrow> Inl e
      | Inr canonicalPath' \<Rightarrow>
          (case fs_exists fs canonicalPath' of
             Inl e \<Rightarrow> Inl e
           | Inr True \<Rightarrow> Inr canonicalPath'
           | Inr False \<Rightarrow> resolve_candidates fs strippedSourceUnitName prefixes canonicalPath'))"

text \<open>The second loop: \<^verbatim>\<open>isAllowed\<close> becomes true at the first directory that contains the path.\<close>

fun is_allowed :: "filesystem \<Rightarrow> path list \<Rightarrow> path \<Rightarrow> exn + bool" where
  "is_allowed fs [] canonicalPath = Inr False"
| "is_allowed fs (allowedDir # dirs) canonicalPath =
     (case normalizeCLIPathForVFS fs allowedDir True of
        Inl e \<Rightarrow> Inl e
      | Inr normalizedDir \<Rightarrow>
          (case isPathPrefix normalizedDir canonicalPath of
             Inl e \<Rightarrow> Inl e
           | Inr True \<Rightarrow> Inr True
           | Inr False \<Rightarrow> is_allowed fs dirs canonicalPath))"

definition extraAllowedPaths :: "FileReader \<Rightarrow> path list" where
  "extraAllowedPaths fr =
     set_plus (set_insert (if m_basePath fr = [] then ''.'' else m_basePath fr) [])
       (m_includePaths fr)"

definition effective_allow_list :: "FileReader \<Rightarrow> path list" where
  "effective_allow_list fr = set_plus (m_allowedDirectories fr) (extraAllowedPaths fr)"

definition resolved_target :: "filesystem \<Rightarrow> FileReader \<Rightarrow> string \<Rightarrow> exn + path" where
  "resolved_target fs fr sourceUnitName =
     resolve_candidates fs (strip_file_scheme sourceUnitName)
       (m_basePath fr # m_includePaths fr) []"

text \<open>The body of the \<^verbatim>\<open>try\<close> block: the new state and the result, or the exception thrown.\<close>

definition readFile_try ::
  "filesystem \<Rightarrow> FileReader \<Rightarrow> string \<Rightarrow> string \<Rightarrow> exn + (FileReader \<times> Result)" where
  "readFile_try fs fr kind sourceUnitName =
     (if kind \<noteq> kindString_ReadFile
      then Inl (InternalCompilerError (''ReadFile callback used as callback kind '' @ kind))
      else
        (case resolved_target fs fr sourceUnitName of
           Inl e \<Rightarrow> Inl e
         | Inr canonicalPath \<Rightarrow>
             (case is_allowed fs (effective_allow_list fr) canonicalPath of
                Inl e \<Rightarrow> Inl e
              | Inr False \<Rightarrow>
                  Inr (fr, \<lparr>success = False,
                            responseOrErrorMessage = ''File outside of allowed directories.''\<rparr>)
              | Inr True \<Rightarrow>
                  (case fs_exists fs canonicalPath of
                     Inl e \<Rightarrow> Inl e
                   | Inr False \<Rightarrow>
                       Inr (fr, \<lparr>success = False, responseOrErrorMessage = ''File not found.''\<rparr>)
                   | Inr True \<Rightarrow>
                       (case is_regular_file fs canonicalPath of
                          Inl e \<Rightarrow> Inl e
                        | Inr False \<Rightarrow>
                            Inr (fr, \<lparr>success = False,
                                      responseOrErrorMessage = ''Not a valid file.''\<rparr>)
                        | Inr True \<Rightarrow>
                            (case readFileAsString fs canonicalPath of
                               Inl e \<Rightarrow> Inl e
                             | Inr contents \<Rightarrow>
                                 Inr (fr\<lparr>m_sourceCodes :=
                                           (m_sourceCodes fr)(sourceUnitName \<mapsto> contents)\<rparr>,
                                      \<lparr>success = True,
                                       responseOrErrorMessage = contents\<rparr>)))))))"

text \<open>The three \<^verbatim>\<open>catch\<close> clauses.\<close>

definition exception_result :: "filesystem \<Rightarrow> exn \<Rightarrow> Result" where
  "exception_result fs e =
     (case e of
        OtherException \<Rightarrow>
          \<lparr>success = False, responseOrErrorMessage = ''Unknown exception in read callback.''\<rparr>
      | _ \<Rightarrow>
          \<lparr>success = False,
           responseOrErrorMessage = ''Exception in read callback: '' @ diagnostic_information fs e\<rparr>)"

definition readFile ::
  "filesystem \<Rightarrow> FileReader \<Rightarrow> string \<Rightarrow> string \<Rightarrow> FileReader \<times> Result" where
  "readFile fs fr kind sourceUnitName =
     (case readFile_try fs fr kind sourceUnitName of
        Inl e \<Rightarrow> (fr, exception_result fs e)
      | Inr r \<Rightarrow> r)"

section \<open>A file system without symbolic links\<close>

text \<open>
  The concrete environment of the scenarios: a working directory, a table of the
  entries that exist (by their canonical paths) and the contents of the files. A path
  is resolved as an operating system without symbolic links does it: from the root
  directory, one element at a time, each step taken from an existing directory. A dot
  stays there, a dot-dot goes to the parent (the root directory is its own parent), a
  name goes to the entry of that name. So a regular file followed by a separator or by
  further elements does not exist.
\<close>

definition plain_step :: "(path \<times> file_type) list \<Rightarrow> path option \<Rightarrow> string \<Rightarrow> path option" where
  "plain_step entries cur name =
     (case cur of
        None \<Rightarrow> None
      | Some d \<Rightarrow>
          (case map_of entries d of
             Some directory_file \<Rightarrow>
               if name = ''.'' then Some d
               else if name = ''..'' then Some (if relative_path d = [] then d else parent_path d)
               else (let child = path_append d name
                     in (case map_of entries child of None \<Rightarrow> None | Some t \<Rightarrow> Some child))
           | _ \<Rightarrow> None))"

definition plain_canonical :: "(path \<times> file_type) list \<Rightarrow> path \<Rightarrow> path option" where
  "plain_canonical entries p =
     (if root_directory p = [] then None
      else (case map_of entries (root_path p) of
              None \<Rightarrow> None
            | Some t \<Rightarrow>
                foldl (plain_step entries) (Some (root_path p)) (relative_elems (relative_path p))))"

definition plain_status :: "(path \<times> file_type) list \<Rightarrow> path \<Rightarrow> file_type" where
  "plain_status entries p =
     (case plain_canonical entries p of
        None \<Rightarrow> file_not_found
      | Some c \<Rightarrow> (case map_of entries c of None \<Rightarrow> file_not_found | Some t \<Rightarrow> t))"

definition plain_fs :: "path \<Rightarrow> (path \<times> file_type) list \<Rightarrow> (path \<times> string) list \<Rightarrow> filesystem" where
  "plain_fs cwd entries files =
     \<lparr>current_path = cwd,
      status = plain_status entries,
      canonical = plain_canonical entries,
      readFileAsString = (\<lambda>p. case map_of files p of None \<Rightarrow> Inl (UtilException p) | Some c \<Rightarrow> Inr c),
      diagnostic_information = (\<lambda>e. case e of InternalCompilerError m \<Rightarrow> m | UtilException m \<Rightarrow> m | StdException m \<Rightarrow> m | OtherException \<Rightarrow> [])\<rparr>"

definition project_fs :: filesystem where
  "project_fs = plain_fs ''/project''
     [(''/'', directory_file), (''/project'', directory_file),
      (''/project/contracts'', directory_file), (''/project/contracts/A.sol'', regular_file),
      (''/etc'', directory_file), (''/etc/passwd'', regular_file)]
     [(''/project/contracts/A.sol'', ''contract A {}''), (''/etc/passwd'', ''root'')]"

definition project_reader :: FileReader where
  "project_reader = \<lparr>m_basePath = ''/project'', m_includePaths = [], m_allowedDirectories = [], m_sourceCodes = Map.empty\<rparr>"

section \<open>Lemmas on readFile\<close>

text \<open>The allow-list in the words of the spec, and the three user-facing failures.\<close>

definition allow_list_entries :: "FileReader \<Rightarrow> path set" where
  "allow_list_entries fr =
     set (m_allowedDirectories fr)
     \<union> {if m_basePath fr = [] then ''.'' else m_basePath fr}
     \<union> set (m_includePaths fr)"

definition access_denied :: Result where
  "access_denied =
     \<lparr>success = False, responseOrErrorMessage = ''File outside of allowed directories.''\<rparr>"

definition not_found :: Result where
  "not_found = \<lparr>success = False, responseOrErrorMessage = ''File not found.''\<rparr>"

definition invalid_file :: Result where
  "invalid_file = \<lparr>success = False, responseOrErrorMessage = ''Not a valid file.''\<rparr>"

lemma set_set_insert: "set (set_insert p S) \<subseteq> insert p (set S)"
  unfolding set_insert_def
  by (cases "list_ex (\<lambda>q. path_eq q p) S") (simp_all add: set_insort_key subset_insertI)

lemma set_foldl_set_insert:
  "set (foldl (\<lambda>S' p. set_insert p S') S ps) \<subseteq> set S \<union> set ps"
proof (induction ps arbitrary: S)
  case Nil
  show ?case by simp
next
  case (Cons p ps)
  have "set (foldl (\<lambda>S' p. set_insert p S') (set_insert p S) ps)
          \<subseteq> set (set_insert p S) \<union> set ps"
    by (rule Cons.IH)
  moreover have "set (set_insert p S) \<subseteq> insert p (set S)"
    by (rule set_set_insert)
  ultimately have "set (foldl (\<lambda>S' p. set_insert p S') (set_insert p S) ps)
          \<subseteq> insert p (set S) \<union> set ps"
    by (rule order_trans [OF _ Un_mono [OF _ subset_refl]])
  then show ?case by simp
qed

lemma set_set_plus: "set (set_plus S ps) \<subseteq> set S \<union> set ps"
  unfolding set_plus_def by (rule set_foldl_set_insert)

lemma effective_allow_list_entries: "set (effective_allow_list fr) \<subseteq> allow_list_entries fr"
proof -
  define b where "b = (if m_basePath fr = [] then ''.'' else m_basePath fr)"
  have 1: "set (set_insert b []) \<subseteq> {b}"
    using set_set_insert [of b "[]"] by simp
  have 2: "set (extraAllowedPaths fr) \<subseteq> set (set_insert b []) \<union> set (m_includePaths fr)"
    unfolding extraAllowedPaths_def b_def by (rule set_set_plus)
  have 3: "set (effective_allow_list fr)
             \<subseteq> set (m_allowedDirectories fr) \<union> set (extraAllowedPaths fr)"
    unfolding effective_allow_list_def by (rule set_set_plus)
  have 4: "allow_list_entries fr = set (m_allowedDirectories fr) \<union> {b} \<union> set (m_includePaths fr)"
    unfolding allow_list_entries_def b_def by (rule refl)
  from 1 2 3 show ?thesis unfolding 4 by blast
qed

lemma is_allowed_True:
  "is_allowed fs dirs t = Inr True \<Longrightarrow>
     \<exists>d \<in> set dirs. \<exists>nd. normalizeCLIPathForVFS fs d True = Inr nd \<and> isPathPrefix nd t = Inr True"
proof (induction dirs)
  case Nil
  then show ?case by simp
next
  case (Cons d dirs)
  from Cons.prems obtain nd where n: "normalizeCLIPathForVFS fs d True = Inr nd"
    by (cases "normalizeCLIPathForVFS fs d True") simp_all
  from Cons.prems n obtain b where p: "isPathPrefix nd t = Inr b"
    by (cases "isPathPrefix nd t") simp_all
  show ?case
  proof (cases b)
    case True
    with n p show ?thesis by auto
  next
    case False
    with Cons.prems n p have "is_allowed fs dirs t = Inr True" by simp
    from Cons.IH [OF this] show ?thesis by auto
  qed
qed

lemma is_allowed_False:
  "\<forall>d \<in> set dirs. \<exists>nd. normalizeCLIPathForVFS fs d True = Inr nd \<and> isPathPrefix nd t = Inr False
     \<Longrightarrow> is_allowed fs dirs t = Inr False"
proof (induction dirs)
  case Nil
  show ?case by simp
next
  case (Cons d dirs)
  from Cons.prems obtain nd where "normalizeCLIPathForVFS fs d True = Inr nd"
    "isPathPrefix nd t = Inr False" by auto
  moreover from Cons have "is_allowed fs dirs t = Inr False" by simp
  ultimately show ?case by simp
qed

lemma readFile_try_success:
  assumes "readFile_try fs fr kind name = Inr (fr', r)" and "success r"
  shows "\<exists>target. kind = kindString_ReadFile
           \<and> resolved_target fs fr name = Inr target
           \<and> is_allowed fs (effective_allow_list fr) target = Inr True
           \<and> fs_exists fs target = Inr True
           \<and> is_regular_file fs target = Inr True
           \<and> readFileAsString fs target = Inr (responseOrErrorMessage r)
           \<and> fr' = fr\<lparr>m_sourceCodes := (m_sourceCodes fr)(name \<mapsto> responseOrErrorMessage r)\<rparr>"
proof -
  from assms(1) have k: "kind = kindString_ReadFile"
    by (simp add: readFile_try_def split: if_splits)
  obtain target where t: "resolved_target fs fr name = Inr target"
    using assms(1) k by (cases "resolved_target fs fr name") (simp_all add: readFile_try_def)
  have a: "is_allowed fs (effective_allow_list fr) target = Inr True"
    using assms k t
    by (cases "is_allowed fs (effective_allow_list fr) target")
       (auto simp: readFile_try_def split: bool.splits)
  have e: "fs_exists fs target = Inr True"
    using assms k t a
    by (cases "fs_exists fs target") (auto simp: readFile_try_def split: bool.splits)
  have g: "is_regular_file fs target = Inr True"
    using assms k t a e
    by (cases "is_regular_file fs target") (auto simp: readFile_try_def split: bool.splits)
  have c: "readFileAsString fs target = Inr (responseOrErrorMessage r)
           \<and> fr' = fr\<lparr>m_sourceCodes := (m_sourceCodes fr)(name \<mapsto> responseOrErrorMessage r)\<rparr>"
    using assms k t a e g
    by (cases "readFileAsString fs target") (auto simp: readFile_try_def)
  from k t a e g c show ?thesis by blast
qed

lemma readFile_try_failure:
  assumes "readFile_try fs fr kind name = Inr (fr', r)" and "\<not> success r"
  shows "fr' = fr \<and> r \<in> {access_denied, not_found, invalid_file}"
proof -
  from assms(1) have k: "kind = kindString_ReadFile"
    by (simp add: readFile_try_def split: if_splits)
  obtain target where t: "resolved_target fs fr name = Inr target"
    using assms(1) k by (cases "resolved_target fs fr name") (simp_all add: readFile_try_def)
  show ?thesis
  proof (cases "is_allowed fs (effective_allow_list fr) target")
    case (Inl e)
    then show ?thesis using assms k t by (simp add: readFile_try_def)
  next
    case a: (Inr b)
    show ?thesis
    proof (cases b)
      case False
      then show ?thesis using assms k t a by (auto simp: readFile_try_def access_denied_def)
    next
      case True
      note b = this
      show ?thesis
      proof (cases "fs_exists fs target")
        case (Inl e)
        then show ?thesis using assms k t a b by (simp add: readFile_try_def)
      next
        case e: (Inr x)
        show ?thesis
        proof (cases x)
          case False
          then show ?thesis using assms k t a b e by (auto simp: readFile_try_def not_found_def)
        next
          case True
          note x = this
          show ?thesis
          proof (cases "is_regular_file fs target")
            case (Inl e')
            then show ?thesis using assms k t a b e x by (simp add: readFile_try_def)
          next
            case g: (Inr y)
            show ?thesis
            proof (cases y)
              case False
              then show ?thesis using assms k t a b e x g
                by (auto simp: readFile_try_def invalid_file_def)
            next
              case True
              then show ?thesis using assms k t a b e x g
                by (cases "readFileAsString fs target") (auto simp: readFile_try_def)
            qed
          qed
        qed
      qed
    qed
  qed
qed

lemma exception_result_failure: "\<not> success (exception_result fs e)"
  by (cases e) (simp_all add: exception_result_def)

lemma exception_result_message: "responseOrErrorMessage (exception_result fs e) \<noteq> []"
  by (cases e) (simp_all add: exception_result_def)

lemma readFile_cases:
  "(\<exists>e. readFile_try fs fr kind name = Inl e \<and> readFile fs fr kind name = (fr, exception_result fs e))
   \<or> (\<exists>r. readFile_try fs fr kind name = Inr r \<and> readFile fs fr kind name = r)"
  by (cases "readFile_try fs fr kind name") (simp_all add: readFile_def)

lemma readFile_success:
  assumes "success (snd (readFile fs fr kind name))"
  shows "\<exists>target. kind = kindString_ReadFile
           \<and> resolved_target fs fr name = Inr target
           \<and> is_allowed fs (effective_allow_list fr) target = Inr True
           \<and> fs_exists fs target = Inr True
           \<and> is_regular_file fs target = Inr True
           \<and> readFileAsString fs target = Inr (responseOrErrorMessage (snd (readFile fs fr kind name)))
           \<and> fst (readFile fs fr kind name) =
                 fr\<lparr>m_sourceCodes := (m_sourceCodes fr)(name \<mapsto> responseOrErrorMessage (snd (readFile fs fr kind name)))\<rparr>"
proof -
  from readFile_cases [of fs fr kind name] show ?thesis
  proof
    assume "\<exists>e. readFile_try fs fr kind name = Inl e \<and> readFile fs fr kind name = (fr, exception_result fs e)"
    then show ?thesis using assms exception_result_failure by auto
  next
    assume "\<exists>r. readFile_try fs fr kind name = Inr r \<and> readFile fs fr kind name = r"
    then obtain fr' r where t: "readFile_try fs fr kind name = Inr (fr', r)"
      and e: "readFile fs fr kind name = (fr', r)" by (cases "readFile fs fr kind name") auto
    from assms e have "success r" by simp
    from readFile_try_success [OF t this] e show ?thesis by simp
  qed
qed

lemma readFile_failure:
  assumes "\<not> success (snd (readFile fs fr kind name))"
  shows "fst (readFile fs fr kind name) = fr"
proof -
  from readFile_cases [of fs fr kind name] show ?thesis
  proof
    assume "\<exists>e. readFile_try fs fr kind name = Inl e \<and> readFile fs fr kind name = (fr, exception_result fs e)"
    then show ?thesis by auto
  next
    assume "\<exists>r. readFile_try fs fr kind name = Inr r \<and> readFile fs fr kind name = r"
    then obtain fr' r where t: "readFile_try fs fr kind name = Inr (fr', r)"
      and e: "readFile fs fr kind name = (fr', r)" by (cases "readFile fs fr kind name") auto
    from assms e have "\<not> success r" by simp
    from readFile_try_failure [OF t this] e show ?thesis by simp
  qed
qed

lemma readFile_access_denied:
  assumes "kind = kindString_ReadFile" and "resolved_target fs fr name = Inr target"
    and "is_allowed fs (effective_allow_list fr) target = Inr False"
  shows "readFile fs fr kind name = (fr, access_denied)"
  using assms by (simp add: readFile_def readFile_try_def access_denied_def)

section \<open>The allow-list invariant of readFile\<close>

text \<open>
  Claim C1, as amended. A successful \<^verbatim>\<open>readFile\<close> has a resolved target that the prefix
  guard finds inside an entry of the allow-list (the allowed directories, the base path
  or \<^verbatim>\<open>.\<close> when it is empty, and the include paths), normalised with symlink
  resolution. When the kind is the file-read tag, the target is resolved and the guard
  answers no for every entry, the result is the access-denied failure and the reader is
  unchanged.
\<close>

theorem readFile_allow_list:
  "(success (snd (readFile fs fr kind sourceUnitName)) \<longrightarrow>
      (\<exists>target d nd. resolved_target fs fr sourceUnitName = Inr target
          \<and> d \<in> allow_list_entries fr
          \<and> normalizeCLIPathForVFS fs d True = Inr nd
          \<and> isPathPrefix nd target = Inr True))
   \<and> (kind = kindString_ReadFile
        \<and> resolved_target fs fr sourceUnitName = Inr target'
        \<and> (\<forall>d \<in> allow_list_entries fr.
               \<exists>nd. normalizeCLIPathForVFS fs d True = Inr nd \<and> isPathPrefix nd target' = Inr False)
      \<longrightarrow> readFile fs fr kind sourceUnitName = (fr, access_denied))"
proof (intro conjI impI)
  assume "success (snd (readFile fs fr kind sourceUnitName))"
  from readFile_success [OF this] obtain target where
    t: "resolved_target fs fr sourceUnitName = Inr target"
    and a: "is_allowed fs (effective_allow_list fr) target = Inr True" by blast
  from is_allowed_True [OF a] obtain d nd where
    "d \<in> set (effective_allow_list fr)" "normalizeCLIPathForVFS fs d True = Inr nd"
    "isPathPrefix nd target = Inr True" by blast
  with t effective_allow_list_entries [of fr]
  show "\<exists>target d nd. resolved_target fs fr sourceUnitName = Inr target
          \<and> d \<in> allow_list_entries fr
          \<and> normalizeCLIPathForVFS fs d True = Inr nd
          \<and> isPathPrefix nd target = Inr True" by blast
next
  assume h: "kind = kindString_ReadFile
        \<and> resolved_target fs fr sourceUnitName = Inr target'
        \<and> (\<forall>d \<in> allow_list_entries fr.
               \<exists>nd. normalizeCLIPathForVFS fs d True = Inr nd \<and> isPathPrefix nd target' = Inr False)"
  then have "\<forall>d \<in> set (effective_allow_list fr).
               \<exists>nd. normalizeCLIPathForVFS fs d True = Inr nd \<and> isPathPrefix nd target' = Inr False"
    using effective_allow_list_entries [of fr] by blast
  then have "is_allowed fs (effective_allow_list fr) target' = Inr False"
    by (rule is_allowed_False)
  with h show "readFile fs fr kind sourceUnitName = (fr, access_denied)"
    by (simp add: readFile_access_denied)
qed

lemma project_allow_list: "allow_list_entries project_reader = {''/project''}"
  by (simp add: allow_list_entries_def project_reader_def)

theorem readFile_allow_list_witness:
  "success (snd (readFile project_fs project_reader ''source'' ''contracts/A.sol''))
   \<and> (\<exists>target d nd. resolved_target project_fs project_reader ''contracts/A.sol'' = Inr target
          \<and> d \<in> allow_list_entries project_reader
          \<and> normalizeCLIPathForVFS project_fs d True = Inr nd
          \<and> isPathPrefix nd target = Inr True)
   \<and> resolved_target project_fs project_reader ''../../etc/passwd'' = Inr ''/etc/passwd''
   \<and> readFile project_fs project_reader ''source'' ''../../etc/passwd'' = (project_reader, access_denied)"
proof -
  have s: "success (snd (readFile project_fs project_reader ''source'' ''contracts/A.sol''))"
    by code_simp
  have k: "''source'' = kindString_ReadFile" by (simp add: kindString_ReadFile_def)
  have r: "resolved_target project_fs project_reader ''../../etc/passwd'' = Inr ''/etc/passwd''"
    by code_simp
  have n: "normalizeCLIPathForVFS project_fs ''/project'' True = Inr ''/project''" by code_simp
  have p: "isPathPrefix ''/project'' ''/etc/passwd'' = Inr False" by code_simp
  have a: "\<forall>d \<in> allow_list_entries project_reader.
               \<exists>nd. normalizeCLIPathForVFS project_fs d True = Inr nd
                    \<and> isPathPrefix nd ''/etc/passwd'' = Inr False"
    unfolding project_allow_list using n p by simp
  note A = readFile_allow_list
    [of project_fs project_reader "''source''" "''contracts/A.sol''" "[]"]
  note B = readFile_allow_list
    [of project_fs project_reader "''source''" "''../../etc/passwd''" "''/etc/passwd''"]
  have 1: "\<exists>target d nd. resolved_target project_fs project_reader ''contracts/A.sol'' = Inr target
          \<and> d \<in> allow_list_entries project_reader
          \<and> normalizeCLIPathForVFS project_fs d True = Inr nd
          \<and> isPathPrefix nd target = Inr True"
    by (rule mp [OF conjunct1 [OF A] s])
  have 2: "readFile project_fs project_reader ''source'' ''../../etc/passwd''
             = (project_reader, access_denied)"
    by (rule mp [OF conjunct2 [OF B] conjI [OF k conjI [OF r a]]])
  show ?thesis by (rule conjI [OF s conjI [OF 1 conjI [OF r 2]]])
qed

text \<open>
  With another kind the request for a target outside every allowed directory fails,
  but not with the access-denied result.
\<close>

theorem readFile_wrong_kind_not_access_denied:
  "resolved_target project_fs project_reader ''../../etc/passwd'' = Inr ''/etc/passwd''
   \<and> is_allowed project_fs (effective_allow_list project_reader) ''/etc/passwd'' = Inr False
   \<and> \<not> success (snd (readFile project_fs project_reader ''not-a-real-kind'' ''../../etc/passwd''))
   \<and> snd (readFile project_fs project_reader ''not-a-real-kind'' ''../../etc/passwd'') \<noteq> access_denied"
  by code_simp

section \<open>The callback kind and the exception boundary\<close>

text \<open>
  Claim C4. A kind other than the file-read tag makes \<^verbatim>\<open>readFile\<close> fail with the
  message of the caught \<^verbatim>\<open>InternalCompilerError\<close>, whatever the source unit name is;
  that result is none of the three user-facing file failures. Whatever exception the
  body of the \<^verbatim>\<open>try\<close> block raises, \<^verbatim>\<open>readFile\<close> returns a failure result with a
  non-empty message and the reader as it was: the function is total, so nothing else
  can leave it.
\<close>

theorem readFile_wrong_kind:
  "(kind \<noteq> kindString_ReadFile \<longrightarrow>
      readFile fs fr kind sourceUnitName =
        (fr, \<lparr>success = False,
              responseOrErrorMessage =
                ''Exception in read callback: '' @
                diagnostic_information fs
                  (InternalCompilerError (''ReadFile callback used as callback kind '' @ kind))\<rparr>)
      \<and> snd (readFile fs fr kind sourceUnitName) \<notin> {access_denied, not_found, invalid_file})
   \<and> (readFile_try fs fr kind sourceUnitName = Inl e \<longrightarrow>
        readFile fs fr kind sourceUnitName = (fr, exception_result fs e)
        \<and> \<not> success (exception_result fs e)
        \<and> responseOrErrorMessage (exception_result fs e) \<noteq> [])"
proof (intro conjI impI)
  assume k: "kind \<noteq> kindString_ReadFile"
  then show r: "readFile fs fr kind sourceUnitName =
        (fr, \<lparr>success = False,
              responseOrErrorMessage =
                ''Exception in read callback: '' @
                diagnostic_information fs
                  (InternalCompilerError (''ReadFile callback used as callback kind '' @ kind))\<rparr>)"
    by (simp add: readFile_def readFile_try_def exception_result_def)
  show "snd (readFile fs fr kind sourceUnitName) \<notin> {access_denied, not_found, invalid_file}"
    unfolding r by (simp add: access_denied_def not_found_def invalid_file_def)
next
  assume "readFile_try fs fr kind sourceUnitName = Inl e"
  then show "readFile fs fr kind sourceUnitName = (fr, exception_result fs e)"
    by (simp add: readFile_def)
next
  show "\<not> success (exception_result fs e)" by (rule exception_result_failure)
next
  show "responseOrErrorMessage (exception_result fs e) \<noteq> []" by (rule exception_result_message)
qed

theorem readFile_wrong_kind_witness:
  "''not-a-real-kind'' \<noteq> kindString_ReadFile
   \<and> readFile project_fs project_reader ''not-a-real-kind'' ''anything'' =
        (project_reader,
         \<lparr>success = False,
          responseOrErrorMessage =
            ''Exception in read callback: ReadFile callback used as callback kind not-a-real-kind''\<rparr>)
   \<and> readFile_try project_fs project_reader ''not-a-real-kind'' ''anything'' =
        Inl (InternalCompilerError ''ReadFile callback used as callback kind not-a-real-kind'')
   \<and> \<not> success (exception_result project_fs
          (InternalCompilerError ''ReadFile callback used as callback kind not-a-real-kind''))"
proof -
  let ?e = "InternalCompilerError ''ReadFile callback used as callback kind not-a-real-kind''"
  have k: "''not-a-real-kind'' \<noteq> kindString_ReadFile" by (simp add: kindString_ReadFile_def)
  have d: "diagnostic_information project_fs
             (InternalCompilerError (''ReadFile callback used as callback kind '' @ ''not-a-real-kind''))
           = ''ReadFile callback used as callback kind not-a-real-kind''"
    by (simp add: project_fs_def plain_fs_def)
  have t: "readFile_try project_fs project_reader ''not-a-real-kind'' ''anything'' = Inl ?e"
    using k by (simp add: readFile_try_def)
  note A = readFile_wrong_kind
    [of "''not-a-real-kind''" project_fs project_reader "''anything''" ?e]
  from conjunct1 [OF mp [OF conjunct1 [OF A] k]] d
  have 1: "readFile project_fs project_reader ''not-a-real-kind'' ''anything'' =
        (project_reader,
         \<lparr>success = False,
          responseOrErrorMessage =
            ''Exception in read callback: ReadFile callback used as callback kind not-a-real-kind''\<rparr>)"
    by simp
  from mp [OF conjunct2 [OF A] t] have 2: "\<not> success (exception_result project_fs ?e)"
    by (rule conjunct1 [OF conjunct2])
  show ?thesis by (rule conjI [OF k conjI [OF 1 conjI [OF t 2]]])
qed

section \<open>Failure leaves the reader unchanged\<close>

text \<open>
  Claim C9. When \<^verbatim>\<open>readFile\<close> returns a failure, the reader (cache, base path, include
  paths and allowed directories) is the one it was called with. The configuration is
  never changed, and the reader changes only on success, where the one change is the
  cache entry for the source unit name, holding the content that \<^verbatim>\<open>readFileAsString\<close>
  returned for the resolved target.
\<close>

theorem readFile_failure_atomic:
  "(\<not> success (snd (readFile fs fr kind sourceUnitName)) \<longrightarrow>
      fst (readFile fs fr kind sourceUnitName) = fr)
   \<and> m_basePath (fst (readFile fs fr kind sourceUnitName)) = m_basePath fr
   \<and> m_includePaths (fst (readFile fs fr kind sourceUnitName)) = m_includePaths fr
   \<and> m_allowedDirectories (fst (readFile fs fr kind sourceUnitName)) = m_allowedDirectories fr
   \<and> (fst (readFile fs fr kind sourceUnitName) \<noteq> fr \<longrightarrow>
        success (snd (readFile fs fr kind sourceUnitName))
        \<and> (\<exists>target contents.
              resolved_target fs fr sourceUnitName = Inr target
              \<and> readFileAsString fs target = Inr contents
              \<and> snd (readFile fs fr kind sourceUnitName)
                    = \<lparr>success = True, responseOrErrorMessage = contents\<rparr>
              \<and> fst (readFile fs fr kind sourceUnitName)
                    = fr\<lparr>m_sourceCodes := (m_sourceCodes fr)(sourceUnitName \<mapsto> contents)\<rparr>))"
proof -
  let ?r = "readFile fs fr kind sourceUnitName"
  have f: "\<not> success (snd ?r) \<Longrightarrow> fst ?r = fr" by (rule readFile_failure)
  have s: "success (snd ?r) \<Longrightarrow>
             \<exists>target. resolved_target fs fr sourceUnitName = Inr target
               \<and> readFileAsString fs target = Inr (responseOrErrorMessage (snd ?r))
               \<and> fst ?r = fr\<lparr>m_sourceCodes :=
                                (m_sourceCodes fr)(sourceUnitName \<mapsto> responseOrErrorMessage (snd ?r))\<rparr>"
    using readFile_success [of fs fr kind sourceUnitName] by blast
  have c: "m_basePath (fst ?r) = m_basePath fr \<and> m_includePaths (fst ?r) = m_includePaths fr
           \<and> m_allowedDirectories (fst ?r) = m_allowedDirectories fr"
  proof (cases "success (snd ?r)")
    case True
    from s [OF this] have
      "fst ?r = fr\<lparr>m_sourceCodes :=
                     (m_sourceCodes fr)(sourceUnitName \<mapsto> responseOrErrorMessage (snd ?r))\<rparr>"
      by blast
    then show ?thesis by simp
  next
    case False
    from f [OF this] show ?thesis by simp
  qed
  have m: "fst ?r \<noteq> fr \<Longrightarrow> success (snd ?r)
        \<and> (\<exists>target contents.
              resolved_target fs fr sourceUnitName = Inr target
              \<and> readFileAsString fs target = Inr contents
              \<and> snd ?r = \<lparr>success = True, responseOrErrorMessage = contents\<rparr>
              \<and> fst ?r = fr\<lparr>m_sourceCodes := (m_sourceCodes fr)(sourceUnitName \<mapsto> contents)\<rparr>)"
  proof -
    assume "fst ?r \<noteq> fr"
    with f have t: "success (snd ?r)" by blast
    from s [OF t] obtain target where
      1: "resolved_target fs fr sourceUnitName = Inr target"
      and 2: "readFileAsString fs target = Inr (responseOrErrorMessage (snd ?r))"
      and 3: "fst ?r = fr\<lparr>m_sourceCodes :=
                     (m_sourceCodes fr)(sourceUnitName \<mapsto> responseOrErrorMessage (snd ?r))\<rparr>"
      by blast
    have 4: "snd ?r = \<lparr>success = True, responseOrErrorMessage = responseOrErrorMessage (snd ?r)\<rparr>"
      using t by (cases "snd ?r") simp
    from t 1 2 3 4 show ?thesis by blast
  qed
  from f c m show ?thesis by blast
qed

theorem readFile_failure_atomic_witness:
  "\<not> success (snd (readFile project_fs project_reader ''source'' ''contracts/missing.sol''))
   \<and> fst (readFile project_fs project_reader ''source'' ''contracts/missing.sol'') = project_reader"
proof -
  have n: "\<not> success (snd (readFile project_fs project_reader ''source'' ''contracts/missing.sol''))"
    by code_simp
  note A = readFile_failure_atomic [of project_fs project_reader "''source''" "''contracts/missing.sol''"]
  show ?thesis by (rule conjI [OF n mp [OF conjunct1 [OF A] n]])
qed

section \<open>The cache entry of a successful read\<close>

lemma project_reader_constructed:
  "new_FileReader project_fs ''/project'' [] [] = Inr project_reader"
proof -
  have "normalizeCLIPathForVFS project_fs ''/project'' False = Inr ''/project''" by code_simp
  then show ?thesis
    by (simp add: new_FileReader_def setBasePath_def default_resolveSymlinks_def solAssert_def
          project_reader_def)
qed

text \<open>
  Claim C8. On success the returned text is what \<^verbatim>\<open>readFileAsString\<close> gave for the
  resolved target (the whole file), the cache afterwards maps the source unit name as it
  was passed, \<^verbatim>\<open>file://\<close> included, to that text, and no other cache entry changes.
  Scenario A: the reader constructed for the base path \<^verbatim>\<open>/project\<close> reads
  \<^verbatim>\<open>contracts/A.sol\<close> and caches it under that name.
\<close>

theorem readFile_caches_original_name:
  "(success (snd (readFile fs fr kind sourceUnitName)) \<longrightarrow>
      (\<exists>target. resolved_target fs fr sourceUnitName = Inr target
         \<and> readFileAsString fs target
              = Inr (responseOrErrorMessage (snd (readFile fs fr kind sourceUnitName))))
      \<and> m_sourceCodes (fst (readFile fs fr kind sourceUnitName)) sourceUnitName
           = Some (responseOrErrorMessage (snd (readFile fs fr kind sourceUnitName)))
      \<and> (\<forall>other. other \<noteq> sourceUnitName \<longrightarrow>
            m_sourceCodes (fst (readFile fs fr kind sourceUnitName)) other = m_sourceCodes fr other))
   \<and> new_FileReader project_fs ''/project'' [] [] = Inr project_reader
   \<and> status project_fs ''/project/contracts/A.sol'' = regular_file
   \<and> readFileAsString project_fs ''/project/contracts/A.sol'' = Inr ''contract A {}''
   \<and> snd (readFile project_fs project_reader ''source'' ''contracts/A.sol'')
        = \<lparr>success = True, responseOrErrorMessage = ''contract A {}''\<rparr>
   \<and> m_sourceCodes (fst (readFile project_fs project_reader ''source'' ''contracts/A.sol''))
        ''contracts/A.sol'' = Some ''contract A {}''"
proof -
  let ?r = "readFile fs fr kind sourceUnitName"
  have g: "success (snd ?r) \<longrightarrow>
      (\<exists>target. resolved_target fs fr sourceUnitName = Inr target
         \<and> readFileAsString fs target = Inr (responseOrErrorMessage (snd ?r)))
      \<and> m_sourceCodes (fst ?r) sourceUnitName = Some (responseOrErrorMessage (snd ?r))
      \<and> (\<forall>other. other \<noteq> sourceUnitName \<longrightarrow> m_sourceCodes (fst ?r) other = m_sourceCodes fr other)"
  proof
    assume "success (snd ?r)"
    from readFile_success [OF this] obtain target where
      1: "resolved_target fs fr sourceUnitName = Inr target"
      and 2: "readFileAsString fs target = Inr (responseOrErrorMessage (snd ?r))"
      and 3: "fst ?r = fr\<lparr>m_sourceCodes :=
                     (m_sourceCodes fr)(sourceUnitName \<mapsto> responseOrErrorMessage (snd ?r))\<rparr>"
      by blast
    have 4: "m_sourceCodes (fst ?r) sourceUnitName = Some (responseOrErrorMessage (snd ?r))"
      by (subst 3) simp
    have 5: "\<forall>other. other \<noteq> sourceUnitName \<longrightarrow> m_sourceCodes (fst ?r) other = m_sourceCodes fr other"
      by (subst 3) simp
    from 1 2 4 5 show "(\<exists>target. resolved_target fs fr sourceUnitName = Inr target
         \<and> readFileAsString fs target = Inr (responseOrErrorMessage (snd ?r)))
      \<and> m_sourceCodes (fst ?r) sourceUnitName = Some (responseOrErrorMessage (snd ?r))
      \<and> (\<forall>other. other \<noteq> sourceUnitName \<longrightarrow> m_sourceCodes (fst ?r) other = m_sourceCodes fr other)"
      by blast
  qed
  have a: "status project_fs ''/project/contracts/A.sol'' = regular_file" by code_simp
  have b: "readFileAsString project_fs ''/project/contracts/A.sol'' = Inr ''contract A {}''"
    by code_simp
  have c: "snd (readFile project_fs project_reader ''source'' ''contracts/A.sol'')
        = \<lparr>success = True, responseOrErrorMessage = ''contract A {}''\<rparr>" by code_simp
  have d: "m_sourceCodes (fst (readFile project_fs project_reader ''source'' ''contracts/A.sol''))
        ''contracts/A.sol'' = Some ''contract A {}''" by code_simp
  show ?thesis
    by (rule conjI [OF g conjI [OF project_reader_constructed conjI [OF a conjI [OF b conjI [OF c d]]]]])
qed

theorem readFile_caches_original_name_witness:
  "success (snd (readFile project_fs project_reader ''source'' ''file://contracts/A.sol''))
   \<and> m_sourceCodes (fst (readFile project_fs project_reader ''source'' ''file://contracts/A.sol''))
        ''file://contracts/A.sol''
      = Some (responseOrErrorMessage
                (snd (readFile project_fs project_reader ''source'' ''file://contracts/A.sol'')))
   \<and> responseOrErrorMessage
        (snd (readFile project_fs project_reader ''source'' ''file://contracts/A.sol''))
      = ''contract A {}''"
proof -
  have s: "success (snd (readFile project_fs project_reader ''source'' ''file://contracts/A.sol''))"
    by code_simp
  have c: "responseOrErrorMessage
        (snd (readFile project_fs project_reader ''source'' ''file://contracts/A.sol''))
      = ''contract A {}''" by code_simp
  note A = readFile_caches_original_name
    [of project_fs project_reader "''source''" "''file://contracts/A.sol''"]
  from mp [OF conjunct1 [OF A] s]
  have m: "m_sourceCodes (fst (readFile project_fs project_reader ''source'' ''file://contracts/A.sol''))
        ''file://contracts/A.sol''
      = Some (responseOrErrorMessage
                (snd (readFile project_fs project_reader ''source'' ''file://contracts/A.sol'')))"
    by (rule conjunct1 [OF conjunct2])
  show ?thesis by (rule conjI [OF s conjI [OF m c]])
qed

section \<open>UNC root names\<close>

text \<open>
  Claim C10. For every root name the return expression of \<^verbatim>\<open>isUNCPath\<close> has a defined
  value (no character is read beyond the terminating null), and it is true exactly when
  the root name has at least two characters, the first two are both slashes (or, in the
  Windows build, both backslashes), and the root name has exactly two characters or its
  third differs from its second. A root name shorter than two characters is not UNC.
\<close>

theorem isUNCPath_rootName_classifies:
  "isUNCPath_rootName win32 rootName =
     Some (2 \<le> length rootName
           \<and> ((rootName ! 0 = CHR ''/'' \<and> rootName ! 1 = CHR ''/'')
              \<or> (win32 \<and> rootName ! 0 = CHR 0x5C \<and> rootName ! 1 = CHR 0x5C))
           \<and> (length rootName = 2 \<or> rootName ! 2 \<noteq> rootName ! 1))
   \<and> (length rootName < 2 \<longrightarrow> isUNCPath_rootName win32 rootName = Some False)
   \<and> (isUNCPath p \<longleftrightarrow>
        2 \<le> length (root_name p)
        \<and> root_name p ! 0 = CHR ''/'' \<and> root_name p ! 1 = CHR ''/''
        \<and> (length (root_name p) = 2 \<or> root_name p ! 2 \<noteq> root_name p ! 1))"
proof -
  have main: "isUNCPath_rootName w rn =
     Some (2 \<le> length rn
           \<and> ((rn ! 0 = CHR ''/'' \<and> rn ! 1 = CHR ''/'')
              \<or> (w \<and> rn ! 0 = CHR 0x5C \<and> rn ! 1 = CHR 0x5C))
           \<and> (length rn = 2 \<or> rn ! 2 \<noteq> rn ! 1))" for w rn
  proof (cases rn)
    case Nil
    then show ?thesis
      by (simp add: isUNCPath_rootName_def sc_and_def sc_or_def)
  next
    case 1: (Cons a r1)
    show ?thesis
    proof (cases r1)
      case Nil
      with 1 show ?thesis
        by (simp add: isUNCPath_rootName_def sc_and_def sc_or_def)
    next
      case 2: (Cons b r2)
      show ?thesis
      proof (cases r2)
        case Nil
        with 1 2 show ?thesis
          by (cases "a = CHR ''/''"; cases "b = CHR ''/''"; cases w)
             (simp_all add: isUNCPath_rootName_def sc_and_def sc_or_def string_at_def char_is_def
                split: bool.splits)
      next
        case (Cons c r3)
        with 1 2 show ?thesis
          by (cases "a = CHR ''/''"; cases "b = CHR ''/''"; cases w; cases "c = b")
             (simp_all add: isUNCPath_rootName_def sc_and_def sc_or_def string_at_def char_is_def
                chars_differ_def split: bool.splits)
      qed
    qed
  qed
  have short: "length rootName < 2 \<longrightarrow> isUNCPath_rootName win32 rootName = Some False"
    by (simp add: main)
  have p: "isUNCPath p \<longleftrightarrow>
        2 \<le> length (root_name p)
        \<and> root_name p ! 0 = CHR ''/'' \<and> root_name p ! 1 = CHR ''/''
        \<and> (length (root_name p) = 2 \<or> root_name p ! 2 \<noteq> root_name p ! 1)"
    by (simp add: isUNCPath_def main)
  from main [of win32 rootName] short p show ?thesis by blast
qed

theorem isUNCPath_rootName_classifies_witness:
  "length ([] :: string) < 2 \<and> isUNCPath_rootName False [] = Some False
   \<and> isUNCPath_rootName False ''/'' = Some False
   \<and> isUNCPath_rootName False ''//net'' = Some True
   \<and> isUNCPath ''//net/share'' \<and> \<not> isUNCPath ''/home''"
proof -
  have l: "length ([] :: string) < 2" by simp
  have 1: "isUNCPath_rootName False [] = Some False"
    by (rule mp [OF conjunct1 [OF conjunct2
          [OF isUNCPath_rootName_classifies [of False "[]" "[]"]]] l])
  have 2: "isUNCPath_rootName False ''/'' = Some False"
    using conjunct1 [OF isUNCPath_rootName_classifies [of False "''/''" "[]"]] by simp
  have 3: "isUNCPath_rootName False ''//net'' = Some True"
    using conjunct1 [OF isUNCPath_rootName_classifies [of False "''//net''" "[]"]] by simp
  have 4: "isUNCPath ''//net/share''" by code_simp
  have 5: "\<not> isUNCPath ''/home''" by code_simp
  show ?thesis by (rule conjI [OF l conjI [OF 1 conjI [OF 2 conjI [OF 3 conjI [OF 4 5]]]]])
qed

section \<open>Resolution against the candidate roots\<close>

text \<open>The candidate for one root, in the words of the spec.\<close>

definition candidate :: "filesystem \<Rightarrow> string \<Rightarrow> path \<Rightarrow> exn + path" where
  "candidate fs sourceUnitName root =
     normalizeCLIPathForVFS fs (path_append root (strip_file_scheme sourceUnitName)) True"

definition candidate_roots :: "FileReader \<Rightarrow> path list" where
  "candidate_roots fr = m_basePath fr # m_includePaths fr"

lemma resolve_candidates_Nil_iff:
  "resolve_candidates fs n [] cp = Inr t \<longleftrightarrow> t = cp"
  by auto

lemma resolve_candidates_Cons:
  "resolve_candidates fs n (p # ps) cp = Inr t \<longleftrightarrow>
     (\<exists>c. normalizeCLIPathForVFS fs (path_append p n) True = Inr c
        \<and> ((fs_exists fs c = Inr True \<and> t = c)
           \<or> (fs_exists fs c = Inr False \<and> resolve_candidates fs n ps c = Inr t)))"
proof (cases "normalizeCLIPathForVFS fs (path_append p n) True")
  case (Inl e)
  then show ?thesis by simp
next
  case c: (Inr c)
  show ?thesis
  proof (cases "fs_exists fs c")
    case (Inl e)
    with c show ?thesis by simp
  next
    case (Inr b)
    with c show ?thesis by (cases b) auto
  qed
qed

lemma resolve_candidates_iff:
  "resolve_candidates fs n ps cp = Inr t \<longleftrightarrow>
     (ps = [] \<and> t = cp)
     \<or> (\<exists>earlier root later. ps = earlier @ root # later
          \<and> (\<forall>r \<in> set earlier. \<exists>c. normalizeCLIPathForVFS fs (path_append r n) True = Inr c
                                    \<and> fs_exists fs c = Inr False)
          \<and> normalizeCLIPathForVFS fs (path_append root n) True = Inr t
          \<and> (fs_exists fs t = Inr True \<or> (later = [] \<and> fs_exists fs t = Inr False)))"
  (is "?L ps cp \<longleftrightarrow> ?N ps cp \<or> ?D ps")
proof (induction ps arbitrary: cp)
  case Nil
  show ?case by auto
next
  case (Cons p ps)
  let ?cand = "\<lambda>r. normalizeCLIPathForVFS fs (path_append r n) True"
  show ?case
  proof
    assume "?L (p # ps) cp"
    then obtain c where c: "?cand p = Inr c"
      and d: "(fs_exists fs c = Inr True \<and> t = c)
              \<or> (fs_exists fs c = Inr False \<and> resolve_candidates fs n ps c = Inr t)"
      unfolding resolve_candidates_Cons by blast
    from d have "?D (p # ps)"
    proof
      assume "fs_exists fs c = Inr True \<and> t = c"
      with c have "p # ps = [] @ p # ps \<and> (\<forall>r \<in> set []. \<exists>c. ?cand r = Inr c \<and> fs_exists fs c = Inr False)
          \<and> ?cand p = Inr t
          \<and> (fs_exists fs t = Inr True \<or> (ps = [] \<and> fs_exists fs t = Inr False))" by simp
      then show ?thesis by blast
    next
      assume f: "fs_exists fs c = Inr False \<and> resolve_candidates fs n ps c = Inr t"
      with Cons.IH [of c] have "?N ps c \<or> ?D ps" by simp
      then show ?thesis
      proof
        assume "?N ps c"
        with c f have "p # ps = [] @ p # [] \<and> (\<forall>r \<in> set []. \<exists>c. ?cand r = Inr c \<and> fs_exists fs c = Inr False)
          \<and> ?cand p = Inr t
          \<and> (fs_exists fs t = Inr True \<or> ([] = ([] :: path list) \<and> fs_exists fs t = Inr False))"
          by simp
        then show ?thesis by blast
      next
        assume "?D ps"
        then obtain earlier root later where e: "ps = earlier @ root # later"
          and a: "\<forall>r \<in> set earlier. \<exists>c. ?cand r = Inr c \<and> fs_exists fs c = Inr False"
          and r: "?cand root = Inr t"
          and x: "fs_exists fs t = Inr True \<or> (later = [] \<and> fs_exists fs t = Inr False)"
          by blast
        from e have "p # ps = (p # earlier) @ root # later" by simp
        moreover from a c f
        have "\<forall>r \<in> set (p # earlier). \<exists>c. ?cand r = Inr c \<and> fs_exists fs c = Inr False"
          by auto
        ultimately show ?thesis using r x by blast
      qed
    qed
    then show "?N (p # ps) cp \<or> ?D (p # ps)" by blast
  next
    assume "?N (p # ps) cp \<or> ?D (p # ps)"
    then have "?D (p # ps)" by simp
    then obtain earlier root later where e: "p # ps = earlier @ root # later"
      and a: "\<forall>r \<in> set earlier. \<exists>c. ?cand r = Inr c \<and> fs_exists fs c = Inr False"
      and r: "?cand root = Inr t"
      and x: "fs_exists fs t = Inr True \<or> (later = [] \<and> fs_exists fs t = Inr False)"
      by blast
    show "?L (p # ps) cp"
    proof (cases earlier)
      case Nil
      with e have "root = p" "later = ps" by simp_all
      with r x show ?thesis unfolding resolve_candidates_Cons by auto
    next
      case (Cons q earlier')
      with e have q: "q = p" and ps: "ps = earlier' @ root # later" by simp_all
      from a Cons q obtain c where c: "?cand p = Inr c" "fs_exists fs c = Inr False" by auto
      from a Cons have "\<forall>r \<in> set earlier'. \<exists>c. ?cand r = Inr c \<and> fs_exists fs c = Inr False"
        by simp
      with ps r x have "?D ps" by blast
      then have "resolve_candidates fs n ps c = Inr t" using Cons.IH [of c] by simp
      with c show ?thesis unfolding resolve_candidates_Cons by simp
    qed
  qed
qed

text \<open>
  Claim C5. \<^verbatim>\<open>readFile\<close> resolves to the target \<^verbatim>\<open>t\<close> exactly when the roots
  \<^verbatim>\<open>[BasePath] ++ IncludePaths\<close> split into earlier roots, one root and later roots such
  that every earlier candidate was computed and does not exist and \<^verbatim>\<open>t\<close> is the
  candidate of that root, which either exists or is the candidate of the last root and
  does not exist. Each candidate is the normalisation, with symlink resolution, of the
  root joined with the name without its \<^verbatim>\<open>file://\<close> prefix.
\<close>

theorem resolved_target_first_existing_or_last:
  "resolved_target fs fr sourceUnitName = Inr target \<longleftrightarrow>
     (\<exists>earlier root later.
        candidate_roots fr = earlier @ root # later
        \<and> (\<forall>r \<in> set earlier. \<exists>c. candidate fs sourceUnitName r = Inr c \<and> fs_exists fs c = Inr False)
        \<and> candidate fs sourceUnitName root = Inr target
        \<and> (fs_exists fs target = Inr True \<or> (later = [] \<and> fs_exists fs target = Inr False)))"
  unfolding resolved_target_def candidate_def candidate_roots_def
  by (subst resolve_candidates_iff) simp

definition libs_fs :: filesystem where
  "libs_fs = plain_fs ''/project''
     [(''/'', directory_file), (''/project'', directory_file), (''/libs'', directory_file),
      (''/libs/Token.sol'', regular_file)]
     [(''/libs/Token.sol'', ''contract Token {}'')]"

definition libs_reader :: FileReader where
  "libs_reader = \<lparr>m_basePath = ''/project'', m_includePaths = [''/libs''],
                   m_allowedDirectories = [], m_sourceCodes = Map.empty\<rparr>"

theorem resolved_target_first_existing_or_last_witness:
  "resolved_target libs_fs libs_reader ''Token.sol'' = Inr ''/libs/Token.sol''
   \<and> resolved_target libs_fs libs_reader ''file://Missing.sol'' = Inr ''/libs/Missing.sol''
   \<and> (\<exists>earlier root later.
        candidate_roots libs_reader = earlier @ root # later
        \<and> (\<forall>r \<in> set earlier. \<exists>c. candidate libs_fs ''Token.sol'' r = Inr c
                                  \<and> fs_exists libs_fs c = Inr False)
        \<and> candidate libs_fs ''Token.sol'' root = Inr ''/libs/Token.sol''
        \<and> (fs_exists libs_fs ''/libs/Token.sol'' = Inr True
           \<or> (later = [] \<and> fs_exists libs_fs ''/libs/Token.sol'' = Inr False)))"
proof -
  have 1: "resolved_target libs_fs libs_reader ''Token.sol'' = Inr ''/libs/Token.sol''"
    by code_simp
  have 2: "resolved_target libs_fs libs_reader ''file://Missing.sol'' = Inr ''/libs/Missing.sol''"
    by code_simp
  note A = resolved_target_first_existing_or_last
    [of libs_fs libs_reader "''Token.sol''" "''/libs/Token.sol''"]
  show ?thesis by (rule conjI [OF 1 conjI [OF 2 iffD1 [OF A 1]]])
qed

section \<open>Source unit names\<close>

text \<open>The remainder of a path below a prefix, as \<^verbatim>\<open>isPathPrefix\<close> computes it.\<close>

definition remainder :: "path \<Rightarrow> path \<Rightarrow> path" where
  "remainder prefix p =
     lexically_relative p (if filename_is_dot prefix then parent_path prefix else prefix)"

definition namer_roots :: "filesystem \<Rightarrow> FileReader \<Rightarrow> exn + path list" where
  "namer_roots fs fr =
     (if m_basePath fr = []
      then (case normalizeCLIPathForVFS fs ''.'' False of
              Inl e \<Rightarrow> Inl e
            | Inr d \<Rightarrow> Inr (d # m_includePaths fr))
      else Inr (m_basePath fr # m_includePaths fr))"

lemma isPathPrefix_Inr:
  "isPathPrefix prefix p = Inr b \<Longrightarrow>
     b = (remainder prefix p \<noteq> [] \<and> hd (path_elems (remainder prefix p)) \<noteq> ''..'')"
  unfolding isPathPrefix_def remainder_def Let_def solAssert_def
  by (simp split: if_splits)

lemma stripPrefixIfPresent_True:
  assumes "isPathPrefix prefix p = Inr True"
  shows "stripPrefixIfPresent prefix p = Inr (remainder prefix p)"
proof -
  from isPathPrefix_Inr [OF assms]
  have "hd (path_elems (remainder prefix p)) \<noteq> ''..''" by simp
  then show ?thesis
    using assms by (simp add: stripPrefixIfPresent_def remainder_def solAssert_def Let_def)
qed

lemma strip_first_prefix_Cons:
  "strip_first_prefix (q # qs) n = Inr s \<longleftrightarrow>
     (isPathPrefix q n = Inr True \<and> s = remainder q n)
     \<or> (isPathPrefix q n = Inr False \<and> strip_first_prefix qs n = Inr s)"
proof (cases "isPathPrefix q n")
  case (Inl e)
  then show ?thesis by simp
next
  case (Inr b)
  show ?thesis
  proof (cases b)
    case True
    with Inr show ?thesis by (auto simp: stripPrefixIfPresent_True)
  next
    case False
    with Inr show ?thesis by simp
  qed
qed

lemma strip_first_prefix_iff:
  "strip_first_prefix qs n = Inr s \<longleftrightarrow>
     (\<exists>earlier root later. qs = earlier @ root # later
        \<and> (\<forall>r \<in> set earlier. isPathPrefix r n = Inr False)
        \<and> isPathPrefix root n = Inr True
        \<and> s = remainder root n)
     \<or> ((\<forall>r \<in> set qs. isPathPrefix r n = Inr False) \<and> s = n)"
  (is "?L qs \<longleftrightarrow> ?D qs \<or> ?N qs")
proof (induction qs)
  case Nil
  show ?case by auto
next
  case (Cons q qs)
  show ?case
  proof
    assume "?L (q # qs)"
    then have "(isPathPrefix q n = Inr True \<and> s = remainder q n)
               \<or> (isPathPrefix q n = Inr False \<and> strip_first_prefix qs n = Inr s)"
      unfolding strip_first_prefix_Cons .
    then show "?D (q # qs) \<or> ?N (q # qs)"
    proof
      assume "isPathPrefix q n = Inr True \<and> s = remainder q n"
      then have "q # qs = [] @ q # qs \<and> (\<forall>r \<in> set []. isPathPrefix r n = Inr False)
                 \<and> isPathPrefix q n = Inr True \<and> s = remainder q n" by simp
      then have "?D (q # qs)" by blast
      then show ?thesis ..
    next
      assume f: "isPathPrefix q n = Inr False \<and> strip_first_prefix qs n = Inr s"
      with Cons.IH have "?D qs \<or> ?N qs" by simp
      then show ?thesis
      proof
        assume "?D qs"
        then obtain earlier root later where e: "qs = earlier @ root # later"
          and a: "\<forall>r \<in> set earlier. isPathPrefix r n = Inr False"
          and r: "isPathPrefix root n = Inr True" and s: "s = remainder root n" by blast
        from e have "q # qs = (q # earlier) @ root # later" by simp
        moreover from a f have "\<forall>r \<in> set (q # earlier). isPathPrefix r n = Inr False" by simp
        ultimately have "?D (q # qs)" using r s by blast
        then show ?thesis ..
      next
        assume "?N qs"
        with f have "?N (q # qs)" by simp
        then show ?thesis ..
      qed
    qed
  next
    assume "?D (q # qs) \<or> ?N (q # qs)"
    then show "?L (q # qs)"
    proof
      assume "?D (q # qs)"
      then obtain earlier root later where e: "q # qs = earlier @ root # later"
        and a: "\<forall>r \<in> set earlier. isPathPrefix r n = Inr False"
        and r: "isPathPrefix root n = Inr True" and s: "s = remainder root n" by blast
      show ?thesis
      proof (cases earlier)
        case Nil
        with e have "root = q" by simp
        with r s show ?thesis unfolding strip_first_prefix_Cons by simp
      next
        case (Cons q' earlier')
        with e have q: "q' = q" and qs: "qs = earlier' @ root # later" by simp_all
        from a Cons q have f: "isPathPrefix q n = Inr False" by simp
        from a Cons have "\<forall>r \<in> set earlier'. isPathPrefix r n = Inr False" by simp
        with qs r s have "?D qs" by blast
        with Cons.IH have "strip_first_prefix qs n = Inr s" by simp
        with f show ?thesis unfolding strip_first_prefix_Cons by simp
      qed
    next
      assume "?N (q # qs)"
      then have f: "isPathPrefix q n = Inr False" and "?N qs" by simp_all
      with Cons.IH have "strip_first_prefix qs n = Inr s" by simp
      with f show ?thesis unfolding strip_first_prefix_Cons by simp
    qed
  qed
qed

lemma cliPathToSourceUnitName_unfold:
  "cliPathToSourceUnitName fs fr cliPath = Inr name \<longleftrightarrow>
     (\<exists>roots normalizedPath stripped.
        namer_roots fs fr = Inr roots
        \<and> normalizeCLIPathForVFS fs cliPath False = Inr normalizedPath
        \<and> strip_first_prefix roots normalizedPath = Inr stripped
        \<and> name = generic_string stripped)"
proof (cases "m_basePath fr = []")
  case True
  show ?thesis
  proof (cases "normalizeCLIPathForVFS fs ''.'' False")
    case (Inl e)
    with True show ?thesis
      by (simp add: cliPathToSourceUnitName_def namer_roots_def default_resolveSymlinks_def)
  next
    case (Inr d)
    with True show ?thesis
      by (cases "normalizeCLIPathForVFS fs cliPath False";
          cases "strip_first_prefix (d # m_includePaths fr)
                   (projr (normalizeCLIPathForVFS fs cliPath False))")
         (auto simp: cliPathToSourceUnitName_def namer_roots_def default_resolveSymlinks_def)
  qed
next
  case False
  then show ?thesis
    by (cases "normalizeCLIPathForVFS fs cliPath False";
        cases "strip_first_prefix (m_basePath fr # m_includePaths fr)
                 (projr (normalizeCLIPathForVFS fs cliPath False))")
       (auto simp: cliPathToSourceUnitName_def namer_roots_def default_resolveSymlinks_def)
qed

text \<open>
  Claim C6. \<^verbatim>\<open>cliPathToSourceUnitName\<close> returns a name exactly when the candidate roots
  (the base path, or the normalised \<^verbatim>\<open>.\<close> when it is empty, followed by the include
  paths) and the path normalised without symlink resolution are computed, and the name
  is the portable string of either the remainder of the normalised path below the first
  root that the prefix guard accepts (every earlier root being refused), or the
  normalised path itself when the guard refuses every root.
\<close>

theorem cliPathToSourceUnitName_first_root:
  "cliPathToSourceUnitName fs fr cliPath = Inr name \<longleftrightarrow>
     (\<exists>roots normalizedPath.
        namer_roots fs fr = Inr roots
        \<and> normalizeCLIPathForVFS fs cliPath False = Inr normalizedPath
        \<and> ((\<exists>earlier root later. roots = earlier @ root # later
               \<and> (\<forall>r \<in> set earlier. isPathPrefix r normalizedPath = Inr False)
               \<and> isPathPrefix root normalizedPath = Inr True
               \<and> name = generic_string (remainder root normalizedPath))
           \<or> ((\<forall>r \<in> set roots. isPathPrefix r normalizedPath = Inr False)
               \<and> name = generic_string normalizedPath)))"
  unfolding cliPathToSourceUnitName_unfold strip_first_prefix_iff by blast

theorem cliPathToSourceUnitName_first_root_witness:
  "cliPathToSourceUnitName libs_fs libs_reader ''/libs/Token.sol'' = Inr ''Token.sol''
   \<and> cliPathToSourceUnitName libs_fs libs_reader ''/etc/passwd'' = Inr ''/etc/passwd''
   \<and> cliPathToSourceUnitName libs_fs libs_reader ''a//./b/../c.sol'' = Inr ''a/c.sol''
   \<and> (\<exists>roots normalizedPath.
        namer_roots libs_fs libs_reader = Inr roots
        \<and> normalizeCLIPathForVFS libs_fs ''/libs/Token.sol'' False = Inr normalizedPath
        \<and> ((\<exists>earlier root later. roots = earlier @ root # later
               \<and> (\<forall>r \<in> set earlier. isPathPrefix r normalizedPath = Inr False)
               \<and> isPathPrefix root normalizedPath = Inr True
               \<and> ''Token.sol'' = generic_string (remainder root normalizedPath))
           \<or> ((\<forall>r \<in> set roots. isPathPrefix r normalizedPath = Inr False)
               \<and> ''Token.sol'' = generic_string normalizedPath)))"
proof -
  have 1: "cliPathToSourceUnitName libs_fs libs_reader ''/libs/Token.sol'' = Inr ''Token.sol''"
    by code_simp
  have 2: "cliPathToSourceUnitName libs_fs libs_reader ''/etc/passwd'' = Inr ''/etc/passwd''"
    by code_simp
  have 3: "cliPathToSourceUnitName libs_fs libs_reader ''a//./b/../c.sol'' = Inr ''a/c.sol''"
    by code_simp
  note A = cliPathToSourceUnitName_first_root
    [of libs_fs libs_reader "''/libs/Token.sol''" "''Token.sol''"]
  show ?thesis by (rule conjI [OF 1 conjI [OF 2 conjI [OF 3 iffD1 [OF A 1]]]])
qed

section \<open>Lemmas on the path library\<close>

subsection \<open>Names between separators\<close>

definition sepfree :: "string \<Rightarrow> bool" where
  "sepfree x \<longleftrightarrow> list_all (\<lambda>c. \<not> is_separator c) x"

definition clean_name :: "string \<Rightarrow> bool" where
  "clean_name x \<longleftrightarrow> x \<noteq> [] \<and> sepfree x"

definition regular_name :: "string \<Rightarrow> bool" where
  "regular_name x \<longleftrightarrow> clean_name x \<and> x \<noteq> ''.'' \<and> x \<noteq> ''..''"

lemma sepfree_simps [simp]:
  "sepfree []" "sepfree (c # x) \<longleftrightarrow> \<not> is_separator c \<and> sepfree x"
  "sepfree (x @ y) \<longleftrightarrow> sepfree x \<and> sepfree y"
  by (auto simp: sepfree_def)

lemma is_separator_simps [simp]:
  "is_separator (CHR ''/'')" "\<not> is_separator (CHR ''.'')"
  by (simp_all add: is_separator_def)

lemma clean_dot [simp]: "clean_name ''.''" "clean_name ''..''"
  by (simp_all add: clean_name_def)

lemma regular_clean: "regular_name x \<Longrightarrow> clean_name x"
  by (simp add: regular_name_def)

lemma split_sep_not_Nil [simp]: "split_sep s \<noteq> []"
  by (induction s) (auto split: list.splits)

lemma split_sep_append_sep:
  "split_sep (a @ CHR ''/'' # b) = split_sep a @ split_sep b"
proof (induction a)
  case Nil
  show ?case by simp
next
  case (Cons c a)
  show ?case
  proof (cases "is_separator c")
    case True
    with Cons show ?thesis by simp
  next
    case False
    obtain y ys where s: "split_sep a = y # ys"
      by (cases "split_sep a") simp_all
    with False Cons show ?thesis by simp
  qed
qed

lemma split_sep_sepfree: "sepfree x \<Longrightarrow> split_sep x = [x]"
  by (induction x) simp_all

lemma names_Nil [simp]: "names [] = []"
  by (simp add: names_def)

lemma names_append_sep: "names (a @ CHR ''/'' # b) = names a @ names b"
  by (simp add: names_def split_sep_append_sep)

lemma names_sep_Cons [simp]: "names (CHR ''/'' # b) = names b"
  using names_append_sep [of "[]" b] by simp

lemma names_snoc_sep [simp]: "names (a @ ''/'') = names a"
  using names_append_sep [of a "[]"] by simp

lemma names_clean: "clean_name x \<Longrightarrow> names x = [x]"
  by (simp add: names_def clean_name_def split_sep_sepfree)

lemma names_sepfree: "sepfree x \<Longrightarrow> names x = (if x = [] then [] else [x])"
  by (simp add: names_def split_sep_sepfree)

lemma names_clean_sep: "clean_name x \<Longrightarrow> names (x @ CHR ''/'' # b) = x # names b"
  by (simp add: names_append_sep names_clean)

lemma names_all_clean: "list_all clean_name (names s)"
proof -
  have "list_all sepfree (split_sep s)"
    by (induction s) (auto split: list.splits)
  then show ?thesis
    by (simp add: names_def clean_name_def list_all_iff)
qed

lemma names_seps_prefix: "list_all is_separator seps \<Longrightarrow> names (seps @ s) = names s"
  by (induction seps) (simp_all add: is_separator_def)

lemma names_seps_suffix: "list_all is_separator seps \<Longrightarrow> names (s @ seps) = names s"
proof (induction seps rule: rev_induct)
  case Nil
  show ?case by simp
next
  case (snoc c seps)
  from snoc.prems have c: "c = CHR ''/''" by (simp add: is_separator_def)
  from snoc.prems have a: "list_all is_separator seps" by simp
  have "names (s @ seps @ [c]) = names ((s @ seps) @ ''/'')" using c by simp
  also have "\<dots> = names (s @ seps)" by (rule names_snoc_sep)
  finally show ?case using snoc.IH [OF a] by simp
qed

subsection \<open>Joining names\<close>

lemma join_names_Cons:
  "join_names (x # xs) = (if xs = [] then x else x @ CHR ''/'' # join_names xs)"
  by (cases xs) simp_all

lemma join_names_eq_Nil: "list_all clean_name ns \<Longrightarrow> join_names ns = [] \<longleftrightarrow> ns = []"
  by (cases ns) (auto simp: join_names_Cons clean_name_def)

lemma hd_join_names:
  "list_all clean_name ns \<Longrightarrow> ns \<noteq> [] \<Longrightarrow> \<not> is_separator (hd (join_names ns))"
  by (cases ns) (auto simp: join_names_Cons clean_name_def neq_Nil_conv)

lemma names_join_names: "list_all clean_name ns \<Longrightarrow> names (join_names ns) = ns"
proof (induction ns)
  case Nil
  show ?case by simp
next
  case (Cons x xs)
  then show ?case
    by (simp add: join_names_Cons names_clean names_clean_sep)
qed

lemma last_join_names:
  "list_all clean_name ns \<Longrightarrow> ns \<noteq> [] \<Longrightarrow> last (join_names ns) = last (last ns)"
proof (induction ns)
  case Nil
  then show ?case by simp
next
  case (Cons x xs)
  show ?case
  proof (cases xs)
    case Nil
    then show ?thesis by simp
  next
    case (Cons y ys)
    with Cons.prems Cons.IH have "last (join_names xs) = last (last xs)" by simp
    moreover have "join_names xs \<noteq> []"
      using Cons.prems Cons by (simp add: join_names_eq_Nil)
    ultimately show ?thesis using Cons by (simp add: join_names_Cons)
  qed
qed

lemma not_ends_with_separator_join:
  "list_all clean_name ns \<Longrightarrow> \<not> ends_with_separator (join_names ns)"
proof (cases "ns = []")
  case True
  then show ?thesis by (simp add: ends_with_separator_def)
next
  case False
  assume a: "list_all clean_name ns"
  from a False have "clean_name (last ns)" by (simp add: list_all_iff)
  then have "\<not> is_separator (last (last ns))"
    by (cases "last ns" rule: rev_cases) (simp_all add: clean_name_def)
  with a False show ?thesis
    by (simp add: ends_with_separator_def last_join_names)
qed

lemma join_names_append:
  "join_names (xs @ ys) =
     (if xs = [] then join_names ys
      else if ys = [] then join_names xs
      else join_names xs @ CHR ''/'' # join_names ys)"
  by (induction xs) (auto simp: join_names_Cons)

lemma foldl_path_append_join:
  "list_all clean_name ns \<Longrightarrow> foldl path_append (join_names ms) ns = join_names (ms @ ns)"
  if "list_all clean_name ms" for ms
  using that
proof (induction ns arbitrary: ms)
  case Nil
  show ?case by simp
next
  case (Cons x xs)
  from Cons.prems have x: "clean_name x" and xs: "list_all clean_name xs" by simp_all
  have 1: "path_append (join_names ms) x = join_names (ms @ [x])"
  proof (cases "ms = []")
    case True
    with x show ?thesis by (cases x) (simp_all add: path_append_def clean_name_def)
  next
    case False
    with Cons.prems(2) have "\<not> ends_with_separator (join_names ms)" "join_names ms \<noteq> []"
      by (simp_all add: not_ends_with_separator_join join_names_eq_Nil)
    with x False show ?thesis
      by (cases x) (auto simp: path_append_def clean_name_def join_names_append
          ends_with_separator_def)
  qed
  have "list_all clean_name (ms @ [x])" using Cons.prems(2) x by simp
  from Cons.IH [OF xs this] 1 show ?case by simp
qed

subsection \<open>Reading a composed string back\<close>

definition root_name_form :: "string \<Rightarrow> bool" where
  "root_name_form rn \<longleftrightarrow> rn = [] \<or> (\<exists>x. rn = ''//'' @ x \<and> clean_name x)"

definition starts_name :: "string \<Rightarrow> bool" where
  "starts_name s \<longleftrightarrow> s = [] \<or> \<not> is_separator (hd s)"

lemma starts_name_simps [simp]:
  "starts_name []" "starts_name (c # s) \<longleftrightarrow> \<not> is_separator c"
  by (simp_all add: starts_name_def)

lemma dropWhile_seps: "list_all P seps \<Longrightarrow> dropWhile P (seps @ s) = dropWhile P s"
  by (induction seps) simp_all

lemma takeWhile_seps: "list_all P seps \<Longrightarrow> takeWhile P (seps @ s) = seps @ takeWhile P s"
  by (induction seps) simp_all

lemma dropWhile_starts_name: "starts_name s \<Longrightarrow> dropWhile is_separator s = s"
  by (cases s) simp_all

lemma takeWhile_starts_name: "starts_name s \<Longrightarrow> takeWhile is_separator s = []"
  by (cases s) simp_all

lemma takeWhile_sepfree_sep:
  "sepfree x \<Longrightarrow> s = [] \<or> is_separator (hd s)
     \<Longrightarrow> takeWhile (\<lambda>c. \<not> is_separator c) (x @ s) = x"
  by (induction x) (cases s, simp_all)

lemma root_name_cases:
  "root_name p = [] \<or> (\<exists>x. root_name p = ''//'' @ x \<and> sepfree x)"
proof (cases p)
  case Nil
  then show ?thesis by (simp add: root_name_def)
next
  case 1: (Cons c1 p1)
  show ?thesis
  proof (cases p1)
    case Nil
    with 1 show ?thesis by (simp add: root_name_def)
  next
    case (Cons c2 rest)
    have "sepfree (takeWhile (\<lambda>c. \<not> is_separator c) rest)"
      by (induction rest) simp_all
    with 1 Cons show ?thesis by (auto simp: root_name_def is_separator_def)
  qed
qed

lemma root_name_two_separators: "root_name p = ''//'' \<Longrightarrow> p = ''//''"
proof (cases p)
  case Nil
  assume "root_name p = ''//''"
  with Nil show ?thesis by (simp add: root_name_def)
next
  case 1: (Cons c1 p1)
  assume r: "root_name p = ''//''"
  show ?thesis
  proof (cases p1)
    case Nil
    with 1 r show ?thesis by (simp add: root_name_def)
  next
    case (Cons c2 rest)
    with 1 r show ?thesis
      by (cases rest) (auto simp: root_name_def is_separator_def split: if_splits)
  qed
qed

lemma parse_relative:
  assumes "starts_name s"
  shows "root_name s = []" "after_root_name s = s" "root_directory s = []" "relative_path s = s"
proof -
  show 1: "root_name s = []" using assms by (cases s) (auto simp: root_name_def split: list.splits)
  show 2: "after_root_name s = s" by (simp add: after_root_name_def 1)
  show "root_directory s = []" unfolding root_directory_def 2 using assms by (cases s) simp_all
  show "relative_path s = s"
    using assms by (simp add: relative_path_def 2 dropWhile_starts_name)
qed

lemma parse_root_name_only:
  assumes "sepfree x"
  shows "root_name (''//'' @ x) = ''//'' @ x" "after_root_name (''//'' @ x) = []"
    "root_directory (''//'' @ x) = []" "relative_path (''//'' @ x) = []"
proof -
  have t: "takeWhile (\<lambda>c. \<not> is_separator c) x = x"
    using takeWhile_sepfree_sep [OF assms, of "[]"] by simp
  show 1: "root_name (''//'' @ x) = ''//'' @ x"
    using assms t by (cases x) (simp_all add: root_name_def)
  show 2: "after_root_name (''//'' @ x) = []"
    unfolding after_root_name_def 1 by simp
  show "root_directory (''//'' @ x) = []" unfolding root_directory_def 2 by simp
  show "relative_path (''//'' @ x) = []" unfolding relative_path_def 2 by simp
qed

lemma parse_rooted_general:
  assumes rn: "root_name_form rn" and seps: "seps \<noteq> []" "list_all is_separator seps"
    and two: "rn = [] \<longrightarrow> length seps \<noteq> 2" and body: "starts_name body"
  shows "root_name (rn @ seps @ body) = rn"
    and "after_root_name (rn @ seps @ body) = seps @ body"
    and "root_directory (rn @ seps @ body) = ''/''"
    and "relative_path (rn @ seps @ body) = body"
    and "root_path (rn @ seps @ body) = rn @ ''/''"
proof -
  from seps obtain seps' where s: "seps = CHR ''/'' # seps'" "list_all is_separator seps'"
    by (cases seps) (auto simp: is_separator_def)
  show 1: "root_name (rn @ seps @ body) = rn"
  proof (cases "rn = []")
    case True
    show ?thesis
    proof (cases seps')
      case Nil
      with True s body show ?thesis
        by (cases body) (simp_all add: root_name_def)
    next
      case (Cons d seps'')
      with s have d: "d = CHR ''/''" by (simp add: is_separator_def)
      from two True s Cons obtain e seps3 where e: "seps'' = e # seps3"
        by (cases seps'') auto
      with s Cons have "is_separator e" by simp
      with True s Cons d e show ?thesis by (simp add: root_name_def)
    qed
  next
    case False
    with rn obtain x where x: "rn = ''//'' @ x" "clean_name x" by (auto simp: root_name_form_def)
    then obtain x1 xs where c: "x = x1 # xs" "\<not> is_separator x1" "sepfree xs"
      by (cases x) (auto simp: clean_name_def)
    have "takeWhile (\<lambda>c. \<not> is_separator c) (x @ seps @ body) = x"
      using x(2) s by (intro takeWhile_sepfree_sep) (simp_all add: clean_name_def)
    with x c show ?thesis by (simp add: root_name_def)
  qed
  show 2: "after_root_name (rn @ seps @ body) = seps @ body"
    unfolding after_root_name_def 1 by simp
  show 3: "root_directory (rn @ seps @ body) = ''/''"
    unfolding root_directory_def 2 using s by simp
  show "relative_path (rn @ seps @ body) = body"
    unfolding relative_path_def 2 using seps body
    by (simp add: dropWhile_seps dropWhile_starts_name)
  show "root_path (rn @ seps @ body) = rn @ ''/''"
    by (simp add: root_path_def 1 3)
qed

lemma parse_rooted:
  assumes "root_name_form rn" and "starts_name body"
  shows "root_name (rn @ CHR ''/'' # body) = rn"
    and "after_root_name (rn @ CHR ''/'' # body) = CHR ''/'' # body"
    and "root_directory (rn @ CHR ''/'' # body) = ''/''"
    and "relative_path (rn @ CHR ''/'' # body) = body"
    and "root_path (rn @ CHR ''/'' # body) = rn @ ''/''"
  using parse_rooted_general [OF assms(1), of "''/''" body] assms(2) by simp_all

text \<open>Every path with a root directory is composed in this way.\<close>

lemma starts_name_relative_path: "starts_name (relative_path p)"
proof -
  have "starts_name (dropWhile is_separator s)" for s
    by (induction s) simp_all
  then show ?thesis by (simp add: relative_path_def)
qed

lemma path_decomposition:
  "p = root_name p @ takeWhile is_separator (after_root_name p) @ relative_path p"
proof -
  have "root_name p = take (length (root_name p)) p"
  proof (cases p)
    case Nil
    then show ?thesis by (simp add: root_name_def)
  next
    case 1: (Cons c1 p1)
    show ?thesis
    proof (cases p1)
      case Nil
      with 1 show ?thesis by (simp add: root_name_def)
    next
      case (Cons c2 rest)
      have "takeWhile P rest = take (length (takeWhile P rest)) rest" for P
        by (induction rest) simp_all
      with 1 Cons show ?thesis by (simp add: root_name_def)
    qed
  qed
  then have "p = root_name p @ after_root_name p"
    unfolding after_root_name_def by (metis append_take_drop_id)
  then show ?thesis
    unfolding relative_path_def by (metis takeWhile_dropWhile_id)
qed

lemma own_decomposition:
  assumes "root_directory p \<noteq> []"
  shows "root_name_form (root_name p)"
    and "takeWhile is_separator (after_root_name p) \<noteq> []"
    and "list_all is_separator (takeWhile is_separator (after_root_name p))"
    and "root_name p = [] \<longrightarrow> length (takeWhile is_separator (after_root_name p)) \<noteq> 2"
proof -
  let ?seps = "takeWhile is_separator (after_root_name p)"
  from assms have a: "after_root_name p \<noteq> []" "is_separator (hd (after_root_name p))"
    by (auto simp: root_directory_def split: if_splits)
  show "root_name_form (root_name p)"
  proof -
    from root_name_cases [of p] show ?thesis
    proof
      assume "root_name p = []"
      then show ?thesis by (simp add: root_name_form_def)
    next
      assume "\<exists>x. root_name p = ''//'' @ x \<and> sepfree x"
      then obtain x where x: "root_name p = ''//'' @ x" "sepfree x" by blast
      have "x \<noteq> []"
      proof
        assume "x = []"
        with x have "p = ''//''" by (simp add: root_name_two_separators)
        then have "after_root_name p = []" by (simp add: after_root_name_def root_name_def)
        with a show False by simp
      qed
      with x show ?thesis by (auto simp: root_name_form_def clean_name_def)
    qed
  qed
  show ne: "?seps \<noteq> []" using a by (cases "after_root_name p") simp_all
  show all: "list_all is_separator ?seps"
    by (simp add: list_all_iff) (meson set_takeWhileD)
  show "root_name p = [] \<longrightarrow> length ?seps \<noteq> 2"
  proof (intro impI notI)
    assume r: "root_name p = []" and l: "length ?seps = 2"
    from l all have s: "?seps = ''//''"
      by (cases ?seps; cases "tl ?seps") (auto simp: is_separator_def)
    from path_decomposition [of p] r s have p: "p = ''//'' @ relative_path p" by simp
    have "root_name (''//'' @ relative_path p) \<noteq> []"
      using starts_name_relative_path [of p]
      by (cases "relative_path p") (simp_all add: root_name_def)
    with p r show False by simp
  qed
qed

subsection \<open>Elements\<close>

lemma relative_elems_join: "list_all clean_name ns \<Longrightarrow> relative_elems (join_names ns) = ns"
  by (simp add: relative_elems_def names_join_names not_ends_with_separator_join)

lemma relative_elems_Nil [simp]: "relative_elems [] = []"
  by (simp add: relative_elems_def ends_with_separator_def)

lemma path_elems_rooted_general:
  assumes "root_name_form rn" and "seps \<noteq> []" "list_all is_separator seps"
    and "rn = [] \<longrightarrow> length seps \<noteq> 2" and "starts_name body"
  shows "path_elems (rn @ seps @ body)
           = (if rn = [] then [] else [rn]) @ [''/''] @ relative_elems body"
  unfolding path_elems_def parse_rooted_general [OF assms] by simp

lemma path_elems_rooted:
  assumes "root_name_form rn" and "starts_name body"
  shows "path_elems (rn @ CHR ''/'' # body)
           = (if rn = [] then [] else [rn]) @ [''/''] @ relative_elems body"
  using path_elems_rooted_general [OF assms(1), of "''/''" body] assms(2) by simp

lemma path_elems_relative: "starts_name s \<Longrightarrow> path_elems s = relative_elems s"
  by (simp add: path_elems_def parse_relative)

lemma path_elems_own:
  assumes "root_directory p \<noteq> []"
  shows "path_elems p = (if root_name p = [] then [] else [root_name p]) @ [''/'']
                         @ relative_elems (relative_path p)"
  using assms by (simp add: path_elems_def)

lemma names_starts_name: "starts_name s \<Longrightarrow> s \<noteq> [] \<Longrightarrow> names s \<noteq> []"
proof -
  assume a: "starts_name s" "s \<noteq> []"
  let ?x = "takeWhile (\<lambda>c. \<not> is_separator c) s"
  let ?r = "dropWhile (\<lambda>c. \<not> is_separator c) s"
  have x: "clean_name ?x"
    using a by (cases s) (auto simp: clean_name_def sepfree_def list_all_iff dest: set_takeWhileD)
  have s: "s = ?x @ ?r" by simp
  show ?thesis
  proof (cases ?r)
    case Nil
    with s have "s = ?x" by simp
    with x have "names s = [s]" by (metis names_clean)
    then show ?thesis by simp
  next
    case (Cons c r)
    have "is_separator c" using hd_dropWhile [of "\<lambda>c. \<not> is_separator c" s] Cons by simp
    then have "c = CHR ''/''" by (simp add: is_separator_def)
    with s Cons have "s = ?x @ CHR ''/'' # r" by simp
    then have "names s = ?x # names r" using x by (metis names_clean_sep)
    then show ?thesis by simp
  qed
qed

lemma path_elems_not_Nil: "p \<noteq> [] \<Longrightarrow> path_elems p \<noteq> []"
proof (cases "root_name p = [] \<and> root_directory p = []")
  case False
  then show ?thesis by (auto simp: path_elems_def)
next
  case True
  assume p: "p \<noteq> []"
  from True have "after_root_name p = p" by (simp add: after_root_name_def)
  with True p have "starts_name p" by (cases p) (auto simp: root_directory_def split: if_splits)
  with p show ?thesis by (simp add: path_elems_relative relative_elems_def names_starts_name)
qed

lemma path_elems_clean: "clean_name e \<Longrightarrow> path_elems e = [e]"
proof -
  assume c: "clean_name e"
  then have "starts_name e" by (cases e) (simp_all add: clean_name_def)
  moreover have "\<not> ends_with_separator e"
    using c by (cases e rule: rev_cases) (simp_all add: clean_name_def ends_with_separator_def)
  ultimately show ?thesis using c
    by (simp add: path_elems_relative relative_elems_def names_clean)
qed

lemma path_elems_root_directory [simp]: "path_elems ''/'' = [''/'']"
  using path_elems_rooted [of "[]" "[]"] by (simp add: root_name_form_def)

lemma path_elems_root_name: "sepfree x \<Longrightarrow> path_elems (''//'' @ x) = [''//'' @ x]"
  unfolding path_elems_def using parse_root_name_only [of x] by simp

lemma relative_elems_clean: "list_all clean_name (relative_elems r)"
  by (simp add: relative_elems_def names_all_clean)

text \<open>Each element is a path of that one element, so it is its own file name.\<close>

lemma path_elems_element: "e \<in> set (path_elems p) \<Longrightarrow> path_elems e = [e]"
proof -
  assume "e \<in> set (path_elems p)"
  then consider "e = root_name p" "root_name p \<noteq> []" | "e = ''/''"
    | "e \<in> set (relative_elems (relative_path p))"
    by (auto simp: path_elems_def split: if_splits)
  then show ?thesis
  proof cases
    case 1
    with root_name_cases [of p] obtain x where "e = ''//'' @ x" "sepfree x" by auto
    then show ?thesis by (simp only: path_elems_root_name)
  next
    case 2
    then show ?thesis by simp
  next
    case 3
    with relative_elems_clean [of "relative_path p"] have "clean_name e"
      by (simp add: list_all_iff)
    then show ?thesis by (rule path_elems_clean)
  qed
qed

lemma filename_element: "e \<in> set (path_elems p) \<Longrightarrow> filename e = e"
proof -
  assume e: "e \<in> set (path_elems p)"
  from path_elems_element [OF e] have 1: "path_elems e = [e]" .
  have "e \<noteq> []"
  proof
    assume "e = []"
    with 1 show False by (simp add: path_elems_def root_name_def root_directory_def
        after_root_name_def relative_path_def)
  qed
  with 1 show ?thesis by (simp add: filename_def)
qed

text \<open>The dot-dot test on the elements of a path.\<close>

lemma filename_is_dot_dot_sepfree: "sepfree e \<Longrightarrow> filename_is_dot_dot e \<longleftrightarrow> e = ''..''"
proof (cases e rule: rev_cases)
  case Nil
  then show ?thesis by (simp add: filename_is_dot_dot_def)
next
  case 1: (snoc ys c1)
  assume s: "sepfree e"
  show ?thesis
  proof (cases ys rule: rev_cases)
    case Nil
    with 1 show ?thesis by (simp add: filename_is_dot_dot_def)
  next
    case 2: (snoc zs c2)
    show ?thesis
    proof (cases zs rule: rev_cases)
      case Nil
      with 1 2 show ?thesis by (auto simp: filename_is_dot_dot_def)
    next
      case 3: (snoc us c3)
      with 1 2 s have "\<not> is_separator c3" by simp
      with 1 2 3 show ?thesis by (simp add: filename_is_dot_dot_def)
    qed
  qed
qed

lemma filename_is_dot_dot_root_name:
  "sepfree x \<Longrightarrow> filename_is_dot_dot (''//'' @ x) \<longleftrightarrow> x = ''..''"
proof (cases x rule: rev_cases)
  case Nil
  then show ?thesis by (simp add: filename_is_dot_dot_def)
next
  case 1: (snoc ys c1)
  assume s: "sepfree x"
  show ?thesis
  proof (cases ys rule: rev_cases)
    case Nil
    with 1 show ?thesis by (simp add: filename_is_dot_dot_def)
  next
    case 2: (snoc zs c2)
    show ?thesis
    proof (cases zs rule: rev_cases)
      case Nil
      with 1 2 show ?thesis by (auto simp: filename_is_dot_dot_def)
    next
      case 3: (snoc us c3)
      with 1 2 s have "\<not> is_separator c3" by simp
      with 1 2 3 show ?thesis by (simp add: filename_is_dot_dot_def)
    qed
  qed
qed

lemma filename_is_dot_dot_root_directory [simp]: "\<not> filename_is_dot_dot ''/''"
  by (simp add: filename_is_dot_dot_def)

lemma hasDotDotSegments_iff:
  "hasDotDotSegments p \<longleftrightarrow> ''..'' \<in> set (path_elems p) \<or> root_name p = ''//..''"
proof -
  let ?rel = "relative_elems (relative_path p)"
  have rel: "filename_is_dot_dot e \<longleftrightarrow> e = ''..''" if "e \<in> set ?rel" for e
  proof -
    from that relative_elems_clean [of "relative_path p"] have "clean_name e"
      by (simp add: list_all_iff)
    then show ?thesis by (simp add: filename_is_dot_dot_sepfree clean_name_def)
  qed
  have rn: "filename_is_dot_dot (root_name p) \<longleftrightarrow> root_name p = ''//..''"
  proof (cases "root_name p = []")
    case True
    then show ?thesis by (simp add: filename_is_dot_dot_def)
  next
    case False
    with root_name_cases [of p] obtain x where x: "root_name p = ''//'' @ x" "sepfree x"
      by blast
    from filename_is_dot_dot_root_name [OF x(2)] show ?thesis unfolding x(1) by simp
  qed
  have rn': "root_name p \<noteq> ''..''" using root_name_cases [of p] by auto
  have a: "list_ex filename_is_dot_dot ?rel \<longleftrightarrow> ''..'' \<in> set ?rel"
    unfolding list_ex_iff using rel by blast
  show ?thesis
    unfolding hasDotDotSegments_def path_elems_def list_ex_append a
    using rn rn' by auto
qed

lemma filename_last: "p \<noteq> [] \<Longrightarrow> filename p = last (path_elems p)"
  by (simp add: filename_def)

subsection \<open>The parent of a path that ends in a dot element\<close>

lemma strip_trailing_separators_decomp:
  "s = strip_trailing_separators s @ rev (takeWhile is_separator (rev s))"
proof -
  have "rev (takeWhile is_separator (rev s) @ dropWhile is_separator (rev s)) = s"
    by (simp only: takeWhile_dropWhile_id rev_rev_ident)
  then show ?thesis by (simp only: rev_append strip_trailing_separators_def)
qed

lemma strip_trailing_separators_suffix:
  "list_all is_separator (rev (takeWhile is_separator (rev s)))"
  by (simp add: list_all_iff) (meson set_takeWhileD)

lemma names_strip_trailing_separators: "names (strip_trailing_separators s) = names s"
proof -
  have "names s = names (strip_trailing_separators s @ rev (takeWhile is_separator (rev s)))"
    using strip_trailing_separators_decomp [of s] by simp
  also have "\<dots> = names (strip_trailing_separators s)"
    by (rule names_seps_suffix [OF strip_trailing_separators_suffix])
  finally show ?thesis by simp
qed

lemma not_ends_strip_trailing_separators:
  "\<not> ends_with_separator (strip_trailing_separators s)"
proof -
  have "dropWhile is_separator (rev s) = [] \<or> \<not> is_separator (hd (dropWhile is_separator (rev s)))"
    using hd_dropWhile [of is_separator "rev s"] by blast
  then show ?thesis
    by (auto simp: ends_with_separator_def strip_trailing_separators_def last_rev)
qed

lemma starts_name_prefix: "starts_name (a @ b) \<Longrightarrow> a \<noteq> [] \<Longrightarrow> starts_name a"
  by (cases a) simp_all

lemma strip_trailing_separators_starts:
  assumes "starts_name s" "s \<noteq> []"
  shows "strip_trailing_separators s \<noteq> []" "starts_name (strip_trailing_separators s)"
proof -
  let ?t = "rev (takeWhile is_separator (rev s))"
  have d: "s = strip_trailing_separators s @ ?t" by (rule strip_trailing_separators_decomp)
  show 1: "strip_trailing_separators s \<noteq> []"
  proof
    assume "strip_trailing_separators s = []"
    with d have "s = ?t" by simp
    with strip_trailing_separators_suffix [of s] have "list_all is_separator s" by simp
    with assms show False by (cases s) simp_all
  qed
  from assms(1) d have "starts_name (strip_trailing_separators s @ ?t)" by simp
  then show "starts_name (strip_trailing_separators s)" using 1 by (rule starts_name_prefix)
qed

lemma strip_trailing_name_decomp:
  "s = strip_trailing_name s @ rev (takeWhile (\<lambda>c. \<not> is_separator c) (rev s))"
proof -
  let ?P = "\<lambda>c. \<not> is_separator c"
  have "rev (takeWhile ?P (rev s) @ dropWhile ?P (rev s)) = s"
    by (simp only: takeWhile_dropWhile_id rev_rev_ident)
  then show ?thesis by (simp only: rev_append strip_trailing_name_def)
qed

lemma strip_trailing_name_suffix:
  "sepfree (rev (takeWhile (\<lambda>c. \<not> is_separator c) (rev s)))"
  by (auto simp: sepfree_def list_all_iff dest: set_takeWhileD)

lemma strip_trailing_name_ends:
  "strip_trailing_name s = [] \<or> ends_with_separator (strip_trailing_name s)"
proof -
  let ?P = "\<lambda>c. \<not> is_separator c"
  have "dropWhile ?P (rev s) = [] \<or> \<not> ?P (hd (dropWhile ?P (rev s)))"
    using hd_dropWhile [of ?P "rev s"] by blast
  then show ?thesis
    by (auto simp: ends_with_separator_def strip_trailing_name_def last_rev)
qed

lemma names_trailing_name:
  assumes "s \<noteq> []" "\<not> ends_with_separator s"
  shows "names s = names (strip_trailing_name s)
                    @ [rev (takeWhile (\<lambda>c. \<not> is_separator c) (rev s))]"
proof -
  let ?nm = "rev (takeWhile (\<lambda>c. \<not> is_separator c) (rev s))"
  let ?pre = "strip_trailing_name s"
  have d: "s = ?pre @ ?nm" by (rule strip_trailing_name_decomp)
  have "?nm \<noteq> []"
    using assms by (cases s rule: rev_cases) (simp_all add: ends_with_separator_def)
  with strip_trailing_name_suffix [of s] have c: "clean_name ?nm" by (simp add: clean_name_def)
  from strip_trailing_name_ends [of s] show ?thesis
  proof
    assume "?pre = []"
    with d c show ?thesis by (metis append_Nil names_Nil names_clean)
  next
    assume "ends_with_separator ?pre"
    then obtain pre1 where p: "?pre = pre1 @ ''/''"
      by (cases ?pre rule: rev_cases) (auto simp: ends_with_separator_def is_separator_def)
    have "names s = names (pre1 @ CHR ''/'' # ?nm)" using d p by simp
    also have "\<dots> = names pre1 @ [?nm]" by (simp add: names_append_sep names_clean [OF c])
    also have "names pre1 = names ?pre" unfolding p by simp
    finally show ?thesis .
  qed
qed

lemma after_root_name_cases:
  "root_name p \<noteq> [] \<Longrightarrow> after_root_name p = [] \<or> is_separator (hd (after_root_name p))"
proof (cases p)
  case Nil
  assume "root_name p \<noteq> []"
  with Nil show ?thesis by (simp add: root_name_def)
next
  case 1: (Cons c1 p1)
  assume r: "root_name p \<noteq> []"
  show ?thesis
  proof (cases p1)
    case Nil
    with 1 r show ?thesis by (simp add: root_name_def)
  next
    case (Cons c2 rest)
    let ?P = "\<lambda>c. \<not> is_separator c"
    from r 1 Cons have n: "root_name p = c1 # c2 # takeWhile ?P rest"
      by (simp add: root_name_def split: if_splits)
    have "drop (length (takeWhile ?P rest)) rest = dropWhile ?P rest"
      by (induction rest) simp_all
    with n 1 Cons have a: "after_root_name p = dropWhile ?P rest"
      by (simp add: after_root_name_def)
    show ?thesis unfolding a using hd_dropWhile [of ?P rest] by blast
  qed
qed

lemma take_own_root:
  "take (length p - length (relative_path p)) p
     = root_name p @ takeWhile is_separator (after_root_name p)"
proof -
  let ?a = "root_name p @ takeWhile is_separator (after_root_name p)"
  have d: "p = ?a @ relative_path p" using path_decomposition [of p] by simp
  then have "length p = length ?a + length (relative_path p)"
    by (metis length_append)
  then have "length p - length (relative_path p) = length ?a" by simp
  moreover have "take (length ?a) p = ?a" using d by (metis append_eq_conv_conj)
  ultimately show ?thesis by simp
qed

lemma path_elems_parent_dot:
  assumes rd: "root_directory p \<noteq> []" and l: "last (path_elems p) = ''.''"
  shows "path_elems (parent_path p) = butlast (path_elems p)"
proof -
  let ?rn = "root_name p"
  let ?seps = "takeWhile is_separator (after_root_name p)"
  let ?rel = "relative_path p"
  let ?roots = "(if ?rn = [] then [] else [?rn]) @ [''/'']"
  note own = own_decomposition [OF rd]
  have e: "path_elems p = ?roots @ relative_elems ?rel" using rd by (simp add: path_elems_own)
  have rel: "?rel \<noteq> []"
  proof
    assume "?rel = []"
    with e l show False by simp
  qed
  have st: "starts_name ?rel" by (rule starts_name_relative_path)
  have tk: "take (length p - length ?rel) p = ?rn @ ?seps" by (rule take_own_root)
  have elems: "path_elems (?rn @ ?seps @ body) = ?roots @ relative_elems body"
    if "starts_name body" for body
    using path_elems_rooted_general [OF own that] by simp
  show ?thesis
  proof (cases "ends_with_separator ?rel")
    case True
    let ?rel' = "strip_trailing_separators ?rel"
    from strip_trailing_separators_starts [OF st rel]
    have ne: "?rel' \<noteq> []" and st': "starts_name ?rel'" .
    have pp: "parent_path p = ?rn @ ?seps @ ?rel'"
      using rel True ne tk by (simp add: parent_path_def Let_def)
    have "relative_elems ?rel' = names ?rel"
      by (simp add: relative_elems_def not_ends_strip_trailing_separators
          names_strip_trailing_separators)
    with pp elems [OF st'] e True show ?thesis
      by (simp add: relative_elems_def butlast_append)
  next
    case False
    let ?pre = "strip_trailing_name ?rel"
    let ?nm = "rev (takeWhile (\<lambda>c. \<not> is_separator c) (rev ?rel))"
    let ?rel' = "strip_trailing_separators ?pre"
    have n: "names ?rel = names ?pre @ [?nm]" using rel False by (rule names_trailing_name)
    have re: "relative_elems ?rel = names ?pre @ [?nm]"
      using False n by (simp add: relative_elems_def)
    have bl: "butlast (path_elems p) = ?roots @ names ?pre"
      unfolding e re by (simp add: butlast_append)
    have d: "?rel = ?pre @ ?nm" by (rule strip_trailing_name_decomp)
    show ?thesis
    proof (cases "?rel' = []")
      case True
      have "names ?pre = []"
        using names_strip_trailing_separators [of ?pre] True by simp
      moreover have "parent_path p = root_path p"
        using rel False True by (simp add: parent_path_def Let_def)
      moreover have "path_elems (root_path p) = ?roots"
      proof -
        have "root_directory p = ''/''"
          using rd by (simp add: root_directory_def split: if_splits)
        then have "root_path p = ?rn @ CHR ''/'' # []" by (simp add: root_path_def)
        then show ?thesis using path_elems_rooted [OF own(1), of "[]"] by simp
      qed
      ultimately show ?thesis using bl by simp
    next
      case ne: False
      then have pre: "?pre \<noteq> []" by (auto simp: strip_trailing_separators_def)
      from st d have "starts_name (?pre @ ?nm)" by simp
      then have sp: "starts_name ?pre" using pre by (rule starts_name_prefix)
      from strip_trailing_separators_starts [OF sp pre] have st': "starts_name ?rel'" by simp
      have pp: "parent_path p = ?rn @ ?seps @ ?rel'"
        using rel False ne tk by (simp add: parent_path_def Let_def)
      have "relative_elems ?rel' = names ?pre"
        by (simp add: relative_elems_def not_ends_strip_trailing_separators
            names_strip_trailing_separators)
      with pp elems [OF st'] bl show ?thesis by simp
    qed
  qed
qed

subsection \<open>The pieces of a path between its separators\<close>

lemma names_path: "names p = names (root_name p) @ names (relative_path p)"
proof -
  let ?a = "after_root_name p"
  have all: "list_all is_separator (takeWhile is_separator ?a)"
    by (simp add: list_all_iff) (meson set_takeWhileD)
  have rel: "names (relative_path p) = names ?a"
    using names_seps_prefix [OF all, of "dropWhile is_separator ?a"]
    by (simp add: relative_path_def)
  have p: "p = root_name p @ ?a"
    using path_decomposition [of p] by (simp add: relative_path_def)
  show ?thesis
  proof (cases "root_name p = []")
    case True
    with p rel show ?thesis by simp
  next
    case False
    from after_root_name_cases [OF False] show ?thesis
    proof
      assume "?a = []"
      with p rel show ?thesis by simp
    next
      assume h: "is_separator (hd ?a)"
      show ?thesis
      proof (cases ?a)
        case Nil
        with p rel show ?thesis by simp
      next
        case (Cons c t)
        with h have a: "?a = CHR ''/'' # t" by (simp add: is_separator_def)
        have "names (root_name p @ CHR ''/'' # t) = names (root_name p) @ names t"
          by (rule names_append_sep)
        with p a rel show ?thesis by simp
      qed
    qed
  qed
qed

lemma names_root_name:
  "names (root_name p) = (if root_name p = [] \<or> root_name p = ''//'' then [] else [drop 2 (root_name p)])"
  using root_name_cases [of p] by (auto simp: names_sepfree)

text \<open>
  A path has a dot-dot segment, in the sense of \<^verbatim>\<open>hasDotDotSegments\<close>, exactly when one
  of the pieces of its string between separators is \<^verbatim>\<open>..\<close>.
\<close>

lemma hasDotDotSegments_pieces: "hasDotDotSegments p \<longleftrightarrow> ''..'' \<in> set (split_sep p)"
proof -
  have 1: "''..'' \<in> set (split_sep p) \<longleftrightarrow> ''..'' \<in> set (names p)"
    by (simp add: names_def)
  have 2: "''..'' \<in> set (names (root_name p)) \<longleftrightarrow> root_name p = ''//..''"
    using root_name_cases [of p] by (auto simp: names_root_name)
  have rn: "root_name p \<noteq> ''..''" using root_name_cases [of p] by auto
  have 3: "''..'' \<in> set (path_elems p) \<longleftrightarrow> ''..'' \<in> set (names (relative_path p))"
    using rn by (simp add: path_elems_def relative_elems_def)
  show ?thesis
    unfolding hasDotDotSegments_iff 1 names_path [of p] using 2 3 by auto
qed

section \<open>The prefix guard\<close>

text \<open>The precondition of \<^verbatim>\<open>isPathPrefix\<close> on one argument: its four assertions.\<close>

definition guard_precondition :: "path \<Rightarrow> bool" where
  "guard_precondition p \<longleftrightarrow>
     p \<noteq> []
     \<and> (is_absolute p \<or> isUNCPath p \<or> path_eq (root_path p) ''/'')
     \<and> path_eq p (lexically_normal p)
     \<and> \<not> hasDotDotSegments p"

lemma isPathPrefix_precondition:
  assumes "guard_precondition prefix" and "guard_precondition p"
  shows "isPathPrefix prefix p
           = Inr (remainder prefix p \<noteq> [] \<and> hd (path_elems (remainder prefix p)) \<noteq> ''..'')"
  using assms
  by (simp add: isPathPrefix_def guard_precondition_def solAssert_def remainder_def Let_def)

lemma mismatch_same: "mismatch es es = ([], [])"
  by (induction es) simp_all

lemma mismatch_butlast: "es \<noteq> [] \<Longrightarrow> mismatch es (butlast es) = ([last es], [])"
proof (induction es)
  case Nil
  then show ?case by simp
next
  case (Cons e es)
  then show ?case by (cases es) simp_all
qed

lemma lexically_relative_self: "p \<noteq> [] \<Longrightarrow> lexically_relative p p = ''.''"
  using path_elems_not_Nil [of p]
  by (simp add: lexically_relative_def mismatch_same Let_def)

lemma lexically_relative_parent_dot:
  assumes rd: "root_directory p \<noteq> []" and l: "last (path_elems p) = ''.''"
  shows "lexically_relative p (parent_path p) = ''.''"
proof -
  let ?es = "path_elems p"
  have b: "path_elems (parent_path p) = butlast ?es" using rd l by (rule path_elems_parent_dot)
  have e: "?es = (if root_name p = [] then [] else [root_name p]) @ [''/'']
                  @ relative_elems (relative_path p)"
    using rd by (rule path_elems_own)
  have ne: "?es \<noteq> []" using e by simp
  have two: "?es \<noteq> [''.'']" using e by (auto simp: Cons_eq_append_conv)
  have m: "mismatch ?es (butlast ?es) = ([''.''], [])"
    using mismatch_butlast [OF ne] l by simp
  show ?thesis
    using two
    by (simp add: lexically_relative_def b m Let_def base_levels_def path_append_def)
qed

lemma rooted_if_dot:
  assumes "is_absolute p \<or> isUNCPath p \<or> path_eq (root_path p) ''/''"
    and "last (path_elems p) = ''.''"
  shows "root_directory p \<noteq> []"
proof
  assume n: "root_directory p = []"
  with assms(1) have "isUNCPath p \<or> path_eq (root_name p) ''/''"
    by (simp add: is_absolute_def root_path_def)
  then have r: "root_name p \<noteq> []"
  proof
    assume "isUNCPath p"
    then show ?thesis
      by (auto simp: isUNCPath_def isUNCPath_rootName_def sc_and_def sc_or_def)
  next
    assume "path_eq (root_name p) ''/''"
    then show ?thesis
      by (auto simp: path_eq_def path_elems_def root_name_def root_directory_def
          after_root_name_def relative_path_def)
  qed
  from after_root_name_cases [OF r] n have "after_root_name p = []"
    by (auto simp: root_directory_def split: if_splits)
  then have "path_elems p = [root_name p]"
    using r n by (simp add: path_elems_def relative_path_def)
  with assms(2) have "root_name p = ''.''" by simp
  with root_name_cases [of p] show False by auto
qed

lemma remainder_self:
  assumes "p \<noteq> []" and "is_absolute p \<or> isUNCPath p \<or> path_eq (root_path p) ''/''"
  shows "remainder p p = ''.''"
proof (cases "filename_is_dot p")
  case False
  with assms(1) show ?thesis by (simp add: remainder_def lexically_relative_self)
next
  case True
  with assms(1) have l: "last (path_elems p) = ''.''"
    by (simp add: filename_is_dot_def filename_def)
  from rooted_if_dot [OF assms(2) l] l True show ?thesis
    by (simp add: remainder_def lexically_relative_parent_dot)
qed

text \<open>
  Claim C7. For arguments that meet the precondition (non-empty, absolute or rooted,
  lexically normal, without dot-dot segments) \<^verbatim>\<open>isPathPrefix\<close> raises nothing and answers
  whether the lexical remainder of the path, relative to the prefix or to the parent of
  a prefix whose last segment is a dot, is non-empty and does not begin with a dot-dot
  segment. Every such path is contained in itself, the remainder being the single
  segment dot.
\<close>

theorem isPathPrefix_containment:
  "(guard_precondition prefix \<and> guard_precondition p \<longrightarrow>
      isPathPrefix prefix p
        = Inr (remainder prefix p \<noteq> [] \<and> hd (path_elems (remainder prefix p)) \<noteq> ''..'')
      \<and> remainder prefix p
          = lexically_relative p
              (if last (path_elems prefix) = ''.'' then parent_path prefix else prefix))
   \<and> (guard_precondition p \<longrightarrow>
        isPathPrefix p p = Inr True \<and> remainder p p = ''.''
        \<and> path_elems (remainder p p) = [''.''])"
proof (intro conjI impI)
  assume a: "guard_precondition prefix \<and> guard_precondition p"
  then show "isPathPrefix prefix p
        = Inr (remainder prefix p \<noteq> [] \<and> hd (path_elems (remainder prefix p)) \<noteq> ''..'')"
    by (simp add: isPathPrefix_precondition)
  from a have "prefix \<noteq> []" by (simp add: guard_precondition_def)
  then show "remainder prefix p
          = lexically_relative p
              (if last (path_elems prefix) = ''.'' then parent_path prefix else prefix)"
    by (simp add: remainder_def filename_is_dot_def filename_def)
next
  assume g: "guard_precondition p"
  then have r: "remainder p p = ''.''"
    by (simp add: guard_precondition_def remainder_self)
  have e: "path_elems ''.'' = [''.'']" by (rule path_elems_clean) simp
  show "remainder p p = ''.''" by (rule r)
  show "path_elems (remainder p p) = [''.'']" unfolding r by (rule e)
  show "isPathPrefix p p = Inr True"
    unfolding isPathPrefix_precondition [OF g g] r e by simp
qed

theorem isPathPrefix_containment_witness:
  "guard_precondition ''/project/'' \<and> guard_precondition ''/project/contracts/A.sol''
   \<and> guard_precondition ''/etc/passwd''
   \<and> isPathPrefix ''/project/'' ''/project/'' = Inr True
   \<and> remainder ''/project/'' ''/project/'' = ''.''
   \<and> isPathPrefix ''/project/'' ''/project/contracts/A.sol'' = Inr True
   \<and> remainder ''/project/'' ''/project/contracts/A.sol'' = ''contracts/A.sol''
   \<and> isPathPrefix ''/project/'' ''/etc/passwd'' = Inr False
   \<and> remainder ''/project/'' ''/etc/passwd'' = ''../etc/passwd''"
proof -
  have 1: "guard_precondition ''/project/''" by code_simp
  have 2: "guard_precondition ''/project/contracts/A.sol''" by code_simp
  have 3: "guard_precondition ''/etc/passwd''" by code_simp
  have r2: "remainder ''/project/'' ''/project/contracts/A.sol'' = ''contracts/A.sol''"
    by code_simp
  have r3: "remainder ''/project/'' ''/etc/passwd'' = ''../etc/passwd''" by code_simp
  have e2: "path_elems ''contracts/A.sol'' = [''contracts'', ''A.sol'']" by code_simp
  have e3: "path_elems ''../etc/passwd'' = [''..'', ''etc'', ''passwd'']" by code_simp
  note A = isPathPrefix_containment [of "''/project/''" "''/project/''"]
  note B = isPathPrefix_containment [of "''/project/''" "''/project/contracts/A.sol''"]
  note C = isPathPrefix_containment [of "''/project/''" "''/etc/passwd''"]
  from mp [OF conjunct2 [OF A] 1]
  have 4: "isPathPrefix ''/project/'' ''/project/'' = Inr True"
    and 5: "remainder ''/project/'' ''/project/'' = ''.''" by simp_all
  from conjunct1 [OF mp [OF conjunct1 [OF B] conjI [OF 1 2]]]
  have 6: "isPathPrefix ''/project/'' ''/project/contracts/A.sol'' = Inr True"
    unfolding r2 e2 by simp
  from conjunct1 [OF mp [OF conjunct1 [OF C] conjI [OF 1 3]]]
  have 7: "isPathPrefix ''/project/'' ''/etc/passwd'' = Inr False"
    unfolding r3 e3 by simp
  show ?thesis
    by (rule conjI [OF 1 conjI [OF 2 conjI [OF 3 conjI [OF 4 conjI [OF 5
          conjI [OF 6 conjI [OF r2 conjI [OF 7 r3]]]]]]]])
qed

section \<open>The shape of a normalised path\<close>

subsection \<open>Lexical normalisation of a rooted path\<close>

text \<open>
  While the names are processed, the stack (last name first) is a run of regular names
  above a run of dot-dot elements.
\<close>

definition normal_stack_form :: "string list \<Rightarrow> bool" where
  "normal_stack_form st \<longleftrightarrow>
     (\<exists>regs k. st = regs @ replicate k ''..'' \<and> list_all regular_name regs)"

lemma normal_step_form:
  assumes "normal_stack_form st" and "clean_name e"
  shows "normal_stack_form (normal_step st e)"
proof -
  from assms(1) obtain regs k where st: "st = regs @ replicate k ''..''"
    and regs: "list_all regular_name regs" by (auto simp: normal_stack_form_def)
  show ?thesis
  proof (cases "e = ''.''")
    case True
    with assms(1) show ?thesis by (simp add: normal_step_def)
  next
    case nd: False
    show ?thesis
    proof (cases "e = ''..''")
      case False
      with nd assms(2) have "regular_name e" by (simp add: regular_name_def)
      with regs have "list_all regular_name (e # regs)" by simp
      moreover have "normal_step st e = (e # regs) @ replicate k ''..''"
        using nd False st by (simp add: normal_step_def)
      ultimately show ?thesis unfolding normal_stack_form_def
        by (intro exI [of _ "e # regs"] exI [of _ k]) simp
    next
      case True
      show ?thesis
      proof (cases regs)
        case (Cons r rs)
        with regs have "r \<noteq> ''..''" "list_all regular_name rs" by (auto simp: regular_name_def)
        moreover have "normal_step st e = rs @ replicate k ''..''"
          using True st Cons \<open>r \<noteq> ''..''\<close> by (simp add: normal_step_def)
        ultimately show ?thesis unfolding normal_stack_form_def
          by (intro exI [of _ rs] exI [of _ k]) simp
      next
        case Nil
        have "normal_step st e = [] @ replicate (Suc k) ''..''"
          using True st Nil by (cases k) (simp_all add: normal_step_def)
        then show ?thesis unfolding normal_stack_form_def
          by (intro exI [of _ "[]"] exI [of _ "Suc k"]) simp
      qed
    qed
  qed
qed

lemma foldl_normal_step_form:
  "normal_stack_form st \<Longrightarrow> list_all clean_name ns
     \<Longrightarrow> normal_stack_form (foldl normal_step st ns)"
  by (induction ns arbitrary: st) (simp_all add: normal_step_form)

lemma normal_stack_form_Nil: "normal_stack_form []"
  unfolding normal_stack_form_def by (intro exI [of _ "[]"] exI [of _ 0]) simp

lemma regular_rev: "list_all regular_name regs \<Longrightarrow> list_all regular_name (rev regs)"
  by (simp add: list_all_iff)

lemma root_directory_value: "root_directory p \<noteq> [] \<Longrightarrow> root_directory p = ''/''"
  by (simp add: root_directory_def split: if_splits)

lemma lexically_normal_rooted:
  assumes "root_directory p \<noteq> []"
  shows "\<exists>k regs dot. list_all regular_name regs \<and> (dot = [] \<or> dot = [''.''])
           \<and> lexically_normal p
               = root_name p @ CHR ''/'' # join_names (replicate k ''..'' @ regs @ dot)"
proof (cases "relative_path p = []")
  case True
  have "lexically_normal p = root_name p @ CHR ''/'' # join_names (replicate 0 ''..'' @ [] @ [])"
    using True root_directory_value [OF assms]
    by (simp add: lexically_normal_def root_path_def)
  then show ?thesis
    by (intro exI [of _ 0] exI [of _ "[]"]) simp
next
  case False
  let ?ns = "names (relative_path p)"
  from foldl_normal_step_form [OF normal_stack_form_Nil names_all_clean, of "relative_path p"]
  obtain regs' k where f: "foldl normal_step [] ?ns = regs' @ replicate k ''..''"
    and r: "list_all regular_name regs'" by (auto simp: normal_stack_form_def)
  let ?dot = "if ends_with_separator (relative_path p) \<or> last ?ns = ''.''
                 \<or> (root_path p = [] \<and> rev (foldl normal_step [] ?ns) = [])
              then [''.''] else []"
  have "lexically_normal p = root_path p @ join_names (rev (foldl normal_step [] ?ns) @ ?dot)"
    using False by (simp add: lexically_normal_def Let_def)
  then have "lexically_normal p
      = root_name p @ CHR ''/'' # join_names (replicate k ''..'' @ rev regs' @ ?dot)"
    unfolding f using root_directory_value [OF assms] by (simp add: root_path_def)
  moreover have "?dot = [] \<or> ?dot = [''.'']" by simp
  ultimately show ?thesis using regular_rev [OF r]
    by (intro exI [of _ k] exI [of _ "rev regs'"] exI [of _ ?dot]) (intro conjI)
qed

lemma lexically_normal_unrooted:
  assumes "root_directory p = []"
  shows "root_directory (lexically_normal p) = []"
proof (cases "root_name p = []")
  case False
  with root_name_cases [of p] obtain x where x: "root_name p = ''//'' @ x" "sepfree x" by auto
  from after_root_name_cases [OF False] assms have "after_root_name p = []"
    by (auto simp: root_directory_def split: if_splits)
  then have "relative_path p = []" by (simp add: relative_path_def)
  then have "lexically_normal p = ''//'' @ x"
    using assms x by (simp add: lexically_normal_def root_path_def)
  then show ?thesis using parse_root_name_only(3) [OF x(2)] by simp
next
  case True
  let ?ns = "names (relative_path p)"
  from foldl_normal_step_form [OF normal_stack_form_Nil names_all_clean, of "relative_path p"]
  obtain regs' k where f: "foldl normal_step [] ?ns = regs' @ replicate k ''..''"
    and r: "list_all regular_name regs'" by (auto simp: normal_stack_form_def)
  let ?dot = "if ends_with_separator (relative_path p) \<or> last ?ns = ''.''
                 \<or> (root_path p = [] \<and> rev (foldl normal_step [] ?ns) = [])
              then [''.''] else []"
  let ?xs = "replicate k ''..'' @ rev regs' @ ?dot"
  have "list_all clean_name (rev regs')"
    using r by (simp add: list_all_iff regular_name_def)
  moreover have "list_all clean_name (replicate k ''..'')"
    by (simp add: list_all_iff)
  moreover have "list_all clean_name ?dot" by simp
  ultimately have c: "list_all clean_name ?xs" by simp
  have "lexically_normal p = (if relative_path p = [] then [] else join_names ?xs)"
    using True assms f by (simp add: lexically_normal_def Let_def root_path_def)
  moreover have "starts_name (join_names ?xs)"
    using hd_join_names [OF c] by (cases "?xs = []") (simp_all add: starts_name_def)
  ultimately have "starts_name (lexically_normal p)" by simp
  then show ?thesis by (rule parse_relative(3))
qed

subsection \<open>From the normalised path to the result\<close>

text \<open>
  \<^verbatim>\<open>normalizeCLIPathForVFS\<close> from its first assertion on, as a function of the canonical
  working directory and of \<^verbatim>\<open>normalizedPath\<close>.
\<close>

definition finish_normalize :: "path \<Rightarrow> path \<Rightarrow> exn + path" where
  "finish_normalize canonicalWorkDir normalizedPath =
               (case solAssert (is_absolute normalizedPath
                                \<or> path_eq (root_path normalizedPath) ''/'') of
                  Inl e \<Rightarrow> Inl e
                | Inr _ \<Rightarrow>
                    (let normalizedRootPath =
                           (if \<not> isUNCPath normalizedPath
                               \<and> path_eq (root_path normalizedPath) (root_path canonicalWorkDir)
                            then ''/'' else root_path normalizedPath)
                     in case absoluteDotDotPrefix normalizedPath of
                          Inl e \<Rightarrow> Inl e
                        | Inr dotDotPrefix \<Rightarrow>
                            (let normalizedPathNoDotDot =
                                   (if dotDotPrefix = []
                                    then path_append normalizedRootPath
                                           (relative_path normalizedPath)
                                    else path_append normalizedRootPath
                                           (lexically_relative normalizedPath
                                              (path_append (root_path normalizedPath)
                                                 dotDotPrefix)))
                             in case solAssert (\<not> hasDotDotSegments normalizedPathNoDotDot) of
                                  Inl e \<Rightarrow> Inl e
                                | Inr _ \<Rightarrow>
                                    if path_eq (generic_string normalizedPathNoDotDot) ''/.''
                                    then Inr ''/''
                                    else Inr (generic_string normalizedPathNoDotDot))))"

lemma normalize_fold:
  "normalizeCLIPathForVFS fs p resolveSymlinks =
     (case weakly_canonical fs (current_path fs) of
        Inl e \<Rightarrow> Inl e
      | Inr canonicalWorkDir \<Rightarrow>
          (let absolutePath = absolute p canonicalWorkDir in
           case (if resolveSymlinks
                 then (case weakly_canonical fs absolutePath of
                         Inl e \<Rightarrow> Inl e
                       | Inr wc \<Rightarrow>
                           if (path_eq p ''.'' \<or> path_eq p ''./'' \<or> path_eq p ''../'')
                              \<and> \<not> ends_with_separator (generic_string wc)
                           then Inr (path_append (parent_path wc) (filename wc @ ''/''))
                           else Inr wc)
                 else Inr (lexically_normal absolutePath)) of
             Inl e \<Rightarrow> Inl e
           | Inr normalizedPath \<Rightarrow> finish_normalize canonicalWorkDir normalizedPath))"
  unfolding normalizeCLIPathForVFS_def finish_normalize_def by (rule refl)

lemma normalize_lexical:
  "normalizeCLIPathForVFS fs p False =
     (case weakly_canonical fs (current_path fs) of
        Inl e \<Rightarrow> Inl e
      | Inr w \<Rightarrow> finish_normalize w (lexically_normal (absolute p w)))"
  unfolding normalize_fold
  by (cases "weakly_canonical fs (current_path fs)") (simp_all add: Let_def)

lemma normalize_finish:
  assumes "normalizeCLIPathForVFS fs p resolveSymlinks = Inr q"
  shows "\<exists>w n. weakly_canonical fs (current_path fs) = Inr w \<and> finish_normalize w n = Inr q"
proof -
  from assms obtain w where w: "weakly_canonical fs (current_path fs) = Inr w"
    unfolding normalize_fold by (cases "weakly_canonical fs (current_path fs)") simp_all
  let ?n = "if resolveSymlinks
                 then (case weakly_canonical fs (absolute p w) of
                         Inl e \<Rightarrow> Inl e
                       | Inr wc \<Rightarrow>
                           if (path_eq p ''.'' \<or> path_eq p ''./'' \<or> path_eq p ''../'')
                              \<and> \<not> ends_with_separator (generic_string wc)
                           then Inr (path_append (parent_path wc) (filename wc @ ''/''))
                           else Inr wc)
                 else Inr (lexically_normal (absolute p w))"
  from assms w have c: "(case ?n of Inl e \<Rightarrow> Inl e | Inr n \<Rightarrow> finish_normalize w n) = Inr q"
    unfolding normalize_fold by (simp add: Let_def)
  then obtain n where "?n = Inr n" by (cases ?n) simp_all
  with c have "finish_normalize w n = Inr q" by simp
  with w show ?thesis by blast
qed

lemma isUNCPath_root_name_form:
  "root_name_form (root_name p) \<Longrightarrow> isUNCPath p \<longleftrightarrow> root_name p \<noteq> []"
proof (cases "root_name p = []")
  case True
  then show ?thesis
    by (simp add: isUNCPath_def isUNCPath_rootName_def sc_and_def sc_or_def)
next
  case False
  assume "root_name_form (root_name p)"
  with False obtain x1 xs where "root_name p = CHR ''/'' # CHR ''/'' # x1 # xs"
    "\<not> is_separator x1"
    by (cases "drop 2 (root_name p)") (auto simp: root_name_form_def clean_name_def)
  then show ?thesis
    by (simp add: isUNCPath_def isUNCPath_rootName_def sc_and_def sc_or_def string_at_def
        chars_differ_def char_is_def is_separator_def)
qed

lemma foldl_filter:
  "foldl (\<lambda>a s. if P s then f a s else a) a xs = foldl f a (filter P xs)"
  by (induction xs arbitrary: a) simp_all

lemma filename_is_dot_dot_clean: "clean_name e \<Longrightarrow> filename_is_dot_dot e \<longleftrightarrow> e = ''..''"
  by (simp add: filename_is_dot_dot_sepfree clean_name_def)

lemma foldl_dot_dot_clean:
  "list_all clean_name xs \<Longrightarrow>
     foldl (\<lambda>prefix segment.
              if filename_is_dot_dot segment then path_append prefix segment else prefix) a xs
       = foldl path_append a (filter (\<lambda>s. s = ''..'') xs)"
  by (induction xs arbitrary: a) (simp_all add: filename_is_dot_dot_clean)

lemma filter_dot_dot:
  assumes "list_all regular_name regs" and "dot = [] \<or> dot = [''.'']"
  shows "filter (\<lambda>s. s = ''..'') (replicate k ''..'' @ regs @ dot) = replicate k ''..''"
proof -
  have "filter (\<lambda>s. s = ''..'') regs = []"
    using assms(1) by (induction regs) (auto simp: regular_name_def)
  moreover have "filter (\<lambda>s. s = ''..'') dot = []" using assms(2) by auto
  ultimately show ?thesis by simp
qed

lemma clean_parts:
  assumes "list_all regular_name regs" and "dot = [] \<or> dot = [''.'']"
  shows "list_all clean_name (replicate k ''..'' @ regs @ dot)"
    and "list_all clean_name (regs @ dot)"
    and "list_all clean_name (replicate k ''..'')"
proof -
  have 1: "list_all clean_name regs" using assms(1) by (simp add: list_all_iff regular_name_def)
  have 2: "list_all clean_name dot" using assms(2) by auto
  show 3: "list_all clean_name (replicate k ''..'')" by (simp add: list_all_iff)
  from 1 2 show "list_all clean_name (regs @ dot)" by simp
  from 1 2 3 show "list_all clean_name (replicate k ''..'' @ regs @ dot)" by simp
qed

lemma starts_name_join: "list_all clean_name xs \<Longrightarrow> starts_name (join_names xs)"
  using hd_join_names [of xs] by (cases "xs = []") (simp_all add: starts_name_def)

lemma foldl_path_append_names:
  "list_all clean_name xs \<Longrightarrow> foldl path_append [] xs = join_names xs"
  using foldl_path_append_join [of "[]" xs] by simp

lemma path_append_root:
  "starts_name q \<Longrightarrow> path_append (rn @ ''/'') q = rn @ CHR ''/'' # q"
  by (cases q) (simp_all add: path_append_def)

lemma mismatch_Nil2: "mismatch b [] = (b, [])"
  by (cases b) simp_all

lemma mismatch_prefix: "mismatch (a @ b) a = (b, [])"
  by (induction a) (simp_all add: mismatch_Nil2)

text \<open>A path composed of a root and clean names, read back.\<close>

lemma composed_path:
  assumes "root_name_form rn" and "list_all clean_name xs"
  shows "root_name (rn @ CHR ''/'' # join_names xs) = rn"
    and "root_path (rn @ CHR ''/'' # join_names xs) = rn @ ''/''"
    and "relative_path (rn @ CHR ''/'' # join_names xs) = join_names xs"
    and "is_absolute (rn @ CHR ''/'' # join_names xs)"
    and "path_elems (rn @ CHR ''/'' # join_names xs)
           = (if rn = [] then [] else [rn]) @ [''/''] @ xs"
proof -
  note s = starts_name_join [OF assms(2)]
  note p = parse_rooted [OF assms(1) s]
  show "root_name (rn @ CHR ''/'' # join_names xs) = rn" by (rule p(1))
  show "root_path (rn @ CHR ''/'' # join_names xs) = rn @ ''/''" by (rule p(5))
  show "relative_path (rn @ CHR ''/'' # join_names xs) = join_names xs" by (rule p(4))
  show "is_absolute (rn @ CHR ''/'' # join_names xs)" by (simp add: is_absolute_def p(3))
  show "path_elems (rn @ CHR ''/'' # join_names xs)
           = (if rn = [] then [] else [rn]) @ [''/''] @ xs"
    by (simp add: path_elems_rooted [OF assms(1) s] relative_elems_join [OF assms(2)])
qed

lemma root_name_form_not_names:
  "root_name_form rn \<Longrightarrow> rn \<noteq> ''..'' \<and> rn \<noteq> ''.'' \<and> rn \<noteq> ''/''"
  by (auto simp: root_name_form_def)

lemma absoluteDotDotPrefix_composed:
  assumes rn: "root_name_form rn" and regs: "list_all regular_name regs"
    and dot: "dot = [] \<or> dot = [''.'']"
  shows "absoluteDotDotPrefix (rn @ CHR ''/'' # join_names (replicate k ''..'' @ regs @ dot))
           = Inr (join_names (replicate k ''..''))"
proof -
  let ?xs = "replicate k ''..'' @ regs @ dot"
  note c = clean_parts [OF regs dot]
  note cp = composed_path [OF rn c(1)]
  have e: "path_elems (join_names ?xs) = ?xs"
    using starts_name_join [OF c(1)] by (simp add: path_elems_relative relative_elems_join [OF c(1)])
  have "foldl (\<lambda>prefix segment.
                 if filename_is_dot_dot segment then path_append prefix segment else prefix) [] ?xs
          = foldl path_append [] (filter (\<lambda>s. s = ''..'') ?xs)"
    by (rule foldl_dot_dot_clean [OF c(1)])
  also have "\<dots> = foldl path_append [] (replicate k ''..'')"
    by (simp only: filter_dot_dot [OF regs dot])
  also have "\<dots> = join_names (replicate k ''..'')"
    by (rule foldl_path_append_names [OF c(3)])
  finally show ?thesis
    unfolding absoluteDotDotPrefix_def cp(3) e using cp(4) by (simp add: solAssert_def)
qed

lemma lexically_relative_composed:
  assumes rn: "root_name_form rn" and regs: "list_all regular_name regs"
    and dot: "dot = [] \<or> dot = [''.'']"
  shows "lexically_relative (rn @ CHR ''/'' # join_names (replicate k ''..'' @ regs @ dot))
           (rn @ CHR ''/'' # join_names (replicate k ''..''))
         = (if regs @ dot = [] then ''.'' else join_names (regs @ dot))"
proof -
  let ?roots = "(if rn = [] then [] else [rn]) @ [''/'']"
  let ?dd = "replicate k ''..''"
  note c = clean_parts [OF regs dot]
  have e: "path_elems (rn @ CHR ''/'' # join_names (?dd @ regs @ dot))
             = (?roots @ ?dd) @ (regs @ dot)"
    using composed_path(5) [OF rn c(1)] by simp
  have b: "path_elems (rn @ CHR ''/'' # join_names ?dd) = ?roots @ ?dd"
    using composed_path(5) [OF rn c(3)] by simp
  have m: "mismatch ((?roots @ ?dd) @ (regs @ dot)) (?roots @ ?dd) = (regs @ dot, [])"
    by (rule mismatch_prefix)
  have ne: "regs @ dot \<noteq> (?roots @ ?dd) @ (regs @ dot)" by simp
  have f: "foldl path_append [] (regs @ dot) = join_names (regs @ dot)"
    by (rule foldl_path_append_names [OF c(2)])
  show ?thesis
    unfolding lexically_relative_def e b m Let_def using ne f
    by (simp add: base_levels_def)
qed

text \<open>
  The result for a normalised path that is a root, a run of dot-dot elements, regular
  names and at most one final dot element. The last assertion fails for the root name
  \<^verbatim>\<open>//..\<close>, which passes the dot-dot test.
\<close>

lemma finish_normalize_composed:
  assumes rn: "root_name_form rn" and regs: "list_all regular_name regs"
    and dot: "dot = [] \<or> dot = [''.'']"
  shows "finish_normalize w (rn @ CHR ''/'' # join_names (replicate k ''..'' @ regs @ dot))
           = (if rn = ''//..'' then Inl (InternalCompilerError [])
              else Inr (let ys = (if 0 < k \<and> regs @ dot = [] then [''.''] else regs @ dot)
                        in if rn = [] \<and> ys = [''.''] then ''/''
                           else rn @ CHR ''/'' # join_names ys))"
proof -
  let ?xs = "replicate k ''..'' @ regs @ dot"
  let ?n = "rn @ CHR ''/'' # join_names ?xs"
  let ?ys = "if 0 < k \<and> regs @ dot = [] then [''.''] else regs @ dot"
  let ?out = "rn @ CHR ''/'' # join_names ?ys"
  note c = clean_parts [OF regs dot]
  note cp = composed_path [OF rn c(1)]
  have cy: "list_all clean_name ?ys" using c(2) by simp
  note cpy = composed_path [OF rn cy]
  have unc: "isUNCPath ?n \<longleftrightarrow> rn \<noteq> []"
    using isUNCPath_root_name_form [of ?n] rn by (simp add: cp(1))
  have root: "(if \<not> isUNCPath ?n \<and> path_eq (root_path ?n) (root_path w)
               then ''/'' else root_path ?n) = rn @ ''/''"
    unfolding unc cp(2) by simp
  have ddp: "absoluteDotDotPrefix ?n = Inr (join_names (replicate k ''..''))"
    by (rule absoluteDotDotPrefix_composed [OF rn regs dot])
  have ddp_Nil: "join_names (replicate k ''..'') = [] \<longleftrightarrow> k = 0"
    using join_names_eq_Nil [OF c(3)] by simp
  have out: "(if join_names (replicate k ''..'') = []
              then path_append (rn @ ''/'') (relative_path ?n)
              else path_append (rn @ ''/'')
                     (lexically_relative ?n
                        (path_append (root_path ?n) (join_names (replicate k ''..'')))))
             = ?out"
  proof (cases "k = 0")
    case True
    then show ?thesis
      unfolding ddp_Nil cp(3) using starts_name_join [OF c(2)]
      by (simp add: path_append_root)
  next
    case False
    have b: "path_append (root_path ?n) (join_names (replicate k ''..''))
               = rn @ CHR ''/'' # join_names (replicate k ''..'')"
      unfolding cp(2) by (rule path_append_root [OF starts_name_join [OF c(3)]])
    have l: "lexically_relative ?n (rn @ CHR ''/'' # join_names (replicate k ''..''))
               = join_names ?ys"
      unfolding lexically_relative_composed [OF rn regs dot] using False by simp
    show ?thesis
      unfolding ddp_Nil b l using False starts_name_join [OF cy]
      by (simp add: path_append_root)
  qed
  have nodd: "hasDotDotSegments ?out \<longleftrightarrow> rn = ''//..''"
  proof -
    have "''..'' \<notin> set regs" using regs by (auto simp: list_all_iff regular_name_def)
    moreover have "''..'' \<notin> set dot" using dot by auto
    ultimately have "''..'' \<notin> set ?ys" by simp
    with root_name_form_not_names [OF rn] show ?thesis
      unfolding hasDotDotSegments_iff cpy(5) cpy(1) by auto
  qed
  have d: "path_elems ''/.'' = [''/'', ''.'']"
    using path_elems_rooted [of "[]" "''.''"]
    by (simp add: root_name_form_def relative_elems_def names_clean ends_with_separator_def)
  have eq: "path_eq ?out ''/.'' \<longleftrightarrow> rn = [] \<and> ?ys = [''.'']"
    unfolding path_eq_def cpy(5) d using root_name_form_not_names [OF rn] by auto
  show ?thesis
    unfolding finish_normalize_def Let_def root ddp
    using cp(4) nodd eq out
    by (simp add: solAssert_def generic_string_def)
qed

text \<open>The results of normalisation: a root followed by regular names and at most one final dot.\<close>

definition vfs_form :: "path \<Rightarrow> bool" where
  "vfs_form q \<longleftrightarrow>
     (\<exists>rn regs dot. root_name_form rn \<and> list_all regular_name regs
        \<and> (dot = [] \<or> dot = [''.''])
        \<and> \<not> (rn = [] \<and> regs = [] \<and> dot = [''.''])
        \<and> rn \<noteq> ''//..''
        \<and> q = rn @ CHR ''/'' # join_names (regs @ dot))"

lemma finish_normalize_vfs_form:
  assumes "finish_normalize w n = Inr q" and rd: "root_directory n \<noteq> []"
    and n: "n = lexically_normal a"
  shows "vfs_form q"
proof -
  have ra: "root_directory a \<noteq> []"
    using rd n lexically_normal_unrooted [of a] by blast
  from lexically_normal_rooted [OF ra] obtain k regs dot where
    regs: "list_all regular_name regs" and dot: "dot = [] \<or> dot = [''.'']"
    and l: "n = root_name a @ CHR ''/'' # join_names (replicate k ''..'' @ regs @ dot)"
    unfolding n by blast
  note rn = own_decomposition(1) [OF ra]
  let ?ys = "if 0 < k \<and> regs @ dot = [] then [''.''] else regs @ dot"
  from assms(1) have c: "(if root_name a = ''//..'' then Inl (InternalCompilerError [])
           else Inr (if root_name a = [] \<and> ?ys = [''.''] then ''/''
                     else root_name a @ CHR ''/'' # join_names ?ys)) = (Inr q :: exn + path)"
    unfolding l finish_normalize_composed [OF rn regs dot] Let_def .
  have nd: "root_name a \<noteq> ''//..''"
  proof
    assume "root_name a = ''//..''"
    with c show False by simp
  qed
  with c have q: "q = (if root_name a = [] \<and> ?ys = [''.''] then ''/''
                              else root_name a @ CHR ''/'' # join_names ?ys)"
    by simp
  show ?thesis
  proof (cases "root_name a = [] \<and> ?ys = [''.'']")
    case True
    with q have "q = [] @ CHR ''/'' # join_names ([] @ [])" by simp
    then show ?thesis unfolding vfs_form_def
      by (intro exI [of _ "[]"]) (simp add: root_name_form_def)
  next
    case False
    show ?thesis
    proof (cases "0 < k \<and> regs @ dot = []")
      case True
      with q False have "q = root_name a @ CHR ''/'' # join_names ([] @ [''.''])"
        and "root_name a \<noteq> []" by simp_all
      then show ?thesis unfolding vfs_form_def using rn nd
        by (intro exI [of _ "root_name a"] exI [of _ "[]"] exI [of _ "[''.'']"]) simp
    next
      case nk: False
      with q False have "q = root_name a @ CHR ''/'' # join_names (regs @ dot)"
        and "\<not> (root_name a = [] \<and> regs @ dot = [''.''])" by auto
      then show ?thesis unfolding vfs_form_def using rn regs dot nd
        by (intro exI [of _ "root_name a"] exI [of _ regs] exI [of _ dot]) auto
    qed
  qed
qed

lemma finish_normalize_rooted:
  "finish_normalize w n = Inr q \<Longrightarrow> root_directory n \<noteq> []"
proof (rule ccontr)
  assume f: "finish_normalize w n = Inr q" and "\<not> root_directory n \<noteq> []"
  then have n: "root_directory n = []" by simp
  have "\<not> path_eq (root_path n) ''/''"
  proof
    assume "path_eq (root_path n) ''/''"
    then have e: "path_elems (root_name n) = [''/'']"
      using n by (simp add: path_eq_def root_path_def)
    from root_name_cases [of n] show False
    proof
      assume "root_name n = []"
      with e show False
        by (simp add: path_elems_def root_name_def root_directory_def after_root_name_def
            relative_path_def)
    next
      assume "\<exists>x. root_name n = ''//'' @ x \<and> sepfree x"
      then obtain x where x: "root_name n = ''//'' @ x" "sepfree x" by blast
      from e show False unfolding x(1) path_elems_root_name [OF x(2)] by simp
    qed
  qed
  with n have "finish_normalize w n = Inl (InternalCompilerError [])"
    unfolding finish_normalize_def by (simp add: solAssert_def is_absolute_def)
  with f show False by simp
qed

lemma normalize_lexical_vfs_form:
  assumes "normalizeCLIPathForVFS fs p False = Inr q"
  shows "vfs_form q"
proof -
  from assms obtain w where w: "weakly_canonical fs (current_path fs) = Inr w"
    and f: "finish_normalize w (lexically_normal (absolute p w)) = Inr q"
    unfolding normalize_lexical
    by (cases "weakly_canonical fs (current_path fs)") simp_all
  from finish_normalize_rooted [OF f] f show ?thesis
    by (intro finish_normalize_vfs_form [OF f _ refl])
qed

lemma vfs_form_fixed:
  assumes "vfs_form q"
  shows "is_absolute q" and "lexically_normal q = q" and "finish_normalize w q = Inr q"
proof -
  from assms obtain rn regs dot where rn: "root_name_form rn"
    and regs: "list_all regular_name regs" and dot: "dot = [] \<or> dot = [''.'']"
    and ex: "\<not> (rn = [] \<and> regs = [] \<and> dot = [''.''])" and nd: "rn \<noteq> ''//..''"
    and q: "q = rn @ CHR ''/'' # join_names (regs @ dot)"
    unfolding vfs_form_def by blast
  note c = clean_parts [OF regs dot]
  note cp = composed_path [OF rn c(2)]
  show "is_absolute q" unfolding q by (rule cp(4))
  have f: "foldl normal_step st (regs @ dot) = rev regs @ st" for st
    using regs dot
  proof (induction regs arbitrary: st)
    case Nil
    then show ?case by (auto simp: normal_step_def)
  next
    case (Cons r regs)
    then have "normal_step st r = r # st" by (simp add: normal_step_def regular_name_def)
    with Cons show ?case by simp
  qed
  show "lexically_normal q = q"
  proof (cases "regs @ dot = []")
    case True
    then show ?thesis unfolding q lexically_normal_def cp(2) cp(3) by simp
  next
    case False
    then have j: "join_names (regs @ dot) \<noteq> []" using join_names_eq_Nil [OF c(2)] by simp
    have l: "last (regs @ dot) = ''.'' \<longleftrightarrow> dot = [''.'']"
    proof (cases "dot = []")
      case True
      with False regs have "regular_name (last regs)" by (simp add: list_all_iff)
      with True show ?thesis by (auto simp: regular_name_def)
    next
      case False
      with dot show ?thesis by auto
    qed
    have "rev (foldl normal_step [] (regs @ dot)) = regs" unfolding f by simp
    then show ?thesis
      unfolding q lexically_normal_def cp(2) cp(3) Let_def names_join_names [OF c(2)]
      using j l dot not_ends_with_separator_join [OF c(2)] by auto
  qed
  have "finish_normalize w (rn @ CHR ''/'' # join_names (replicate 0 ''..'' @ regs @ dot))
          = (if rn = ''//..'' then Inl (InternalCompilerError [])
             else Inr (let ys = (if 0 < (0::nat) \<and> regs @ dot = [] then [''.''] else regs @ dot)
                       in if rn = [] \<and> ys = [''.''] then ''/''
                          else rn @ CHR ''/'' # join_names ys))"
    by (rule finish_normalize_composed [OF rn regs dot])
  then show "finish_normalize w q = Inr q"
    unfolding q using ex dot regs nd by (auto simp: Let_def regular_name_def)
qed

lemma absolute_absolute: "is_absolute p \<Longrightarrow> absolute p w = p"
  by (simp add: absolute_def)

lemma normalize_lexical_idempotent:
  assumes "normalizeCLIPathForVFS fs p False = Inr q"
  shows "normalizeCLIPathForVFS fs q False = Inr q"
proof -
  from assms obtain w where w: "weakly_canonical fs (current_path fs) = Inr w"
    unfolding normalize_lexical
    by (cases "weakly_canonical fs (current_path fs)") simp_all
  note v = vfs_form_fixed [OF normalize_lexical_vfs_form [OF assms]]
  show ?thesis
    unfolding normalize_lexical w using v by (simp add: absolute_absolute)
qed

lemma vfs_form_elems:
  assumes "vfs_form q"
  shows "''..'' \<notin> set (path_elems q)" and "''.'' \<notin> set (butlast (path_elems q))"
proof -
  from assms obtain rn regs dot where rn: "root_name_form rn"
    and regs: "list_all regular_name regs" and dot: "dot = [] \<or> dot = [''.'']"
    and q: "q = rn @ CHR ''/'' # join_names (regs @ dot)"
    unfolding vfs_form_def by blast
  note c = clean_parts [OF regs dot]
  note cp = composed_path [OF rn c(2)]
  have r: "''..'' \<notin> set regs" "''.'' \<notin> set regs"
    using regs by (auto simp: list_all_iff regular_name_def)
  show "''..'' \<notin> set (path_elems q)"
    unfolding q cp(5) using r dot root_name_form_not_names [OF rn] by auto
  show "''.'' \<notin> set (butlast (path_elems q))"
    unfolding q cp(5) using r dot root_name_form_not_names [OF rn]
    by (auto simp: butlast_append dest: in_set_butlastD)
qed

subsection \<open>The last assertion\<close>

lemma finish_normalize_no_dot_dot:
  assumes "finish_normalize w n = Inr q"
  shows "\<not> hasDotDotSegments q"
proof -
  let ?root = "if \<not> isUNCPath n \<and> path_eq (root_path n) (root_path w)
               then ''/'' else root_path n"
  from assms obtain ddp where d: "absoluteDotDotPrefix n = Inr ddp"
    unfolding finish_normalize_def Let_def
    by (cases "absoluteDotDotPrefix n")
       (simp_all add: solAssert_def split: if_splits)
  let ?out = "if ddp = [] then path_append ?root (relative_path n)
              else path_append ?root
                     (lexically_relative n (path_append (root_path n) ddp))"
  have a: "is_absolute n \<or> path_eq (root_path n) ''/''"
    using assms unfolding finish_normalize_def by (simp add: solAssert_def split: if_splits)
  have f: "finish_normalize w n =
             (if hasDotDotSegments ?out then Inl (InternalCompilerError [])
              else if path_eq ?out ''/.'' then Inr ''/'' else Inr ?out)"
    unfolding finish_normalize_def Let_def d using a
    by (simp add: solAssert_def generic_string_def)
  have r: "\<not> hasDotDotSegments ''/''"
    by (simp add: hasDotDotSegments_iff root_name_def)
  from assms show ?thesis unfolding f using r by (auto split: if_splits)
qed

subsection \<open>The pieces of a normalised path\<close>

lemma split_sep_join:
  "list_all clean_name ns \<Longrightarrow> ns \<noteq> [] \<Longrightarrow> split_sep (join_names ns) = ns"
proof (induction ns)
  case Nil
  then show ?case by simp
next
  case (Cons x xs)
  from Cons.prems have x: "sepfree x" by (simp add: clean_name_def)
  show ?case
  proof (cases "xs = []")
    case True
    with x show ?thesis by (simp add: split_sep_sepfree)
  next
    case False
    with Cons have "split_sep (join_names xs) = xs" by simp
    with False x show ?thesis
      by (simp add: join_names_Cons split_sep_append_sep split_sep_sepfree)
  qed
qed

lemma vfs_form_pieces:
  assumes "vfs_form q"
  shows "''.'' \<notin> set (butlast (split_sep (after_root_name q)))"
proof -
  from assms obtain rn regs dot where rn: "root_name_form rn"
    and regs: "list_all regular_name regs" and dot: "dot = [] \<or> dot = [''.'']"
    and q: "q = rn @ CHR ''/'' # join_names (regs @ dot)"
    unfolding vfs_form_def by blast
  note c = clean_parts [OF regs dot]
  have a: "after_root_name q = CHR ''/'' # join_names (regs @ dot)"
    unfolding q by (rule parse_rooted(2) [OF rn starts_name_join [OF c(2)]])
  have r: "''.'' \<notin> set regs" using regs by (auto simp: list_all_iff regular_name_def)
  show ?thesis
  proof (cases "regs @ dot = []")
    case True
    then show ?thesis unfolding a by simp
  next
    case False
    have "split_sep (join_names (regs @ dot)) = regs @ dot"
      by (rule split_sep_join [OF c(2) False])
    then have "butlast (split_sep (after_root_name q)) = [] # butlast (regs @ dot)"
      unfolding a using False by simp
    moreover have "''.'' \<notin> set (butlast (regs @ dot))"
      using r dot by (auto simp: butlast_append dest: in_set_butlastD)
    ultimately show ?thesis by simp
  qed
qed

subsection \<open>Normalisation with symlink resolution\<close>

text \<open>
  For the inputs \<^verbatim>\<open>.\<close>, \<^verbatim>\<open>./\<close> and \<^verbatim>\<open>../\<close> the source appends a separator to the last
  element of the weakly canonical path. The result is then a root followed by regular
  names and a final separator.
\<close>

definition slash_form :: "path \<Rightarrow> bool" where
  "slash_form q \<longleftrightarrow>
     (\<exists>rn regs. root_name_form rn \<and> rn \<noteq> ''//..'' \<and> list_all regular_name regs \<and> regs \<noteq> []
        \<and> q = rn @ CHR ''/'' # join_names regs @ ''/'')"

lemma slash_path:
  assumes rn: "root_name_form rn" and xs: "list_all clean_name xs" and ne: "xs \<noteq> []"
  shows "root_name (rn @ CHR ''/'' # join_names xs @ ''/'') = rn"
    and "after_root_name (rn @ CHR ''/'' # join_names xs @ ''/'') = CHR ''/'' # join_names xs @ ''/''"
    and "root_path (rn @ CHR ''/'' # join_names xs @ ''/'') = rn @ ''/''"
    and "relative_path (rn @ CHR ''/'' # join_names xs @ ''/'') = join_names xs @ ''/''"
    and "is_absolute (rn @ CHR ''/'' # join_names xs @ ''/'')"
    and "path_elems (rn @ CHR ''/'' # join_names xs @ ''/'')
           = (if rn = [] then [] else [rn]) @ [''/''] @ xs @ [''.'']"
    and "starts_name (join_names xs @ ''/'')"
    and "path_elems (join_names xs @ ''/'') = xs @ [''.'']"
proof -
  have j: "join_names xs \<noteq> []" using join_names_eq_Nil [OF xs] ne by simp
  from starts_name_join [OF xs] j show s: "starts_name (join_names xs @ ''/'')"
    by (cases "join_names xs") simp_all
  note p = parse_rooted [OF rn s]
  show "root_name (rn @ CHR ''/'' # join_names xs @ ''/'') = rn" by (rule p(1))
  show "after_root_name (rn @ CHR ''/'' # join_names xs @ ''/'') = CHR ''/'' # join_names xs @ ''/''"
    by (rule p(2))
  show "root_path (rn @ CHR ''/'' # join_names xs @ ''/'') = rn @ ''/''" by (rule p(5))
  show "relative_path (rn @ CHR ''/'' # join_names xs @ ''/'') = join_names xs @ ''/''"
    by (rule p(4))
  show "is_absolute (rn @ CHR ''/'' # join_names xs @ ''/'')" by (simp add: is_absolute_def p(3))
  have r: "relative_elems (join_names xs @ ''/'') = xs @ [''.'']"
    by (simp add: relative_elems_def names_join_names [OF xs] ends_with_separator_def)
  show "path_elems (rn @ CHR ''/'' # join_names xs @ ''/'')
           = (if rn = [] then [] else [rn]) @ [''/''] @ xs @ [''.'']"
    by (simp add: path_elems_rooted [OF rn s] r)
  show "path_elems (join_names xs @ ''/'') = xs @ [''.'']"
    by (simp add: path_elems_relative [OF s] r)
qed

lemma slash_form_segments:
  assumes "slash_form q"
  shows "''.'' \<notin> set (butlast (path_elems q))"
    and "''.'' \<notin> set (butlast (split_sep (after_root_name q)))"
    and "ends_with_separator q"
proof -
  from assms obtain rn regs where rn: "root_name_form rn"
    and regs: "list_all regular_name regs" and ne: "regs \<noteq> []"
    and q: "q = rn @ CHR ''/'' # join_names regs @ ''/''"
    unfolding slash_form_def by blast
  have c: "list_all clean_name regs" using regs by (simp add: list_all_iff regular_name_def)
  note sp = slash_path [OF rn c ne]
  have r: "''.'' \<notin> set regs" using regs by (auto simp: list_all_iff regular_name_def)
  show "''.'' \<notin> set (butlast (path_elems q))"
    unfolding q sp(6) using r root_name_form_not_names [OF rn]
    by (auto simp: butlast_append)
  have "split_sep (join_names regs @ ''/'') = regs @ [[]]"
    using split_sep_append_sep [of "join_names regs" "[]"] split_sep_join [OF c ne] by simp
  then show "''.'' \<notin> set (butlast (split_sep (after_root_name q)))"
    unfolding q sp(2) using r by (simp add: butlast_append)
  show "ends_with_separator q" unfolding q by (simp add: ends_with_separator_def)
qed

text \<open>The parent path and the file name of a composed path, put together again.\<close>

lemma strip_trailing_name_sepfree: "sepfree y \<Longrightarrow> strip_trailing_name y = []"
proof -
  assume "sepfree y"
  then have "\<And>c. c \<in> set (rev y) \<Longrightarrow> \<not> is_separator c" by (simp add: sepfree_def list_all_iff)
  then have "dropWhile (\<lambda>c. \<not> is_separator c) (rev y) = []" by simp
  then show ?thesis by (simp add: strip_trailing_name_def)
qed

lemma strip_trailing_name_snoc:
  "sepfree y \<Longrightarrow> strip_trailing_name (a @ CHR ''/'' # y) = a @ ''/''"
proof -
  assume "sepfree y"
  then have "\<And>c. c \<in> set (rev y) \<Longrightarrow> \<not> is_separator c" by (simp add: sepfree_def list_all_iff)
  then have "dropWhile (\<lambda>c. \<not> is_separator c) (rev y @ CHR ''/'' # rev a)
               = dropWhile (\<lambda>c. \<not> is_separator c) (CHR ''/'' # rev a)"
    by (rule dropWhile_append2)
  then have "dropWhile (\<lambda>c. \<not> is_separator c) (rev y @ CHR ''/'' # rev a) = CHR ''/'' # rev a"
    by simp
  then show ?thesis by (simp add: strip_trailing_name_def)
qed

lemma strip_trailing_separators_snoc:
  "a \<noteq> [] \<Longrightarrow> \<not> is_separator (last a) \<Longrightarrow> strip_trailing_separators (a @ ''/'') = a"
  by (cases a rule: rev_cases) (simp_all add: strip_trailing_separators_def)

lemma strip_trailing_separators_Nil [simp]: "strip_trailing_separators [] = []"
  by (simp add: strip_trailing_separators_def)

lemma parent_filename_composed:
  assumes rn: "root_name_form rn" and xs: "list_all clean_name xs" and ne: "xs \<noteq> []"
  shows "path_append (parent_path (rn @ CHR ''/'' # join_names xs))
           (filename (rn @ CHR ''/'' # join_names xs) @ ''/'')
         = rn @ CHR ''/'' # join_names xs @ ''/''"
proof -
  let ?c = "rn @ CHR ''/'' # join_names xs"
  note cp = composed_path [OF rn xs]
  from ne obtain ys y where x: "xs = ys @ [y]" by (cases xs rule: rev_cases) simp_all
  from xs x have y: "clean_name y" and cys: "list_all clean_name ys" by simp_all
  then have sy: "sepfree y" and yne: "y \<noteq> []" by (simp_all add: clean_name_def)
  have hy: "\<not> is_separator (hd (y @ ''/''))" using sy yne by (cases y) simp_all
  have j: "join_names xs \<noteq> []" using join_names_eq_Nil [OF xs] ne by simp
  have ns: "\<not> ends_with_separator (join_names xs)" by (rule not_ends_with_separator_join [OF xs])
  have f: "filename ?c = y"
    unfolding filename_def cp(5) using x by simp
  have pp: "parent_path ?c =
              (let rel' = strip_trailing_separators (strip_trailing_name (join_names xs))
               in if rel' = [] then rn @ ''/''
                  else take (length ?c - length (join_names xs)) ?c @ rel')"
    using j ns by (simp add: parent_path_def cp(2) cp(3) Let_def)
  show ?thesis
  proof (cases "ys = []")
    case True
    with x have "join_names xs = y" by simp
    then have "parent_path ?c = rn @ ''/''"
      unfolding pp using sy by (simp add: strip_trailing_name_sepfree)
    with f hy yne True x show ?thesis by (simp add: path_append_def)
  next
    case False
    have jx: "join_names xs = join_names ys @ CHR ''/'' # y"
      using x False by (simp add: join_names_append)
    have jy: "join_names ys \<noteq> []" using join_names_eq_Nil [OF cys] False by simp
    have ly: "\<not> is_separator (last (join_names ys))"
      using not_ends_with_separator_join [OF cys] jy by (simp add: ends_with_separator_def)
    have rel': "strip_trailing_separators (strip_trailing_name (join_names xs)) = join_names ys"
      unfolding jx strip_trailing_name_snoc [OF sy]
      by (rule strip_trailing_separators_snoc [OF jy ly])
    have tk: "take (length ?c - length (join_names xs)) ?c = rn @ ''/''"
      by simp
    have "parent_path ?c = rn @ CHR ''/'' # join_names ys"
      unfolding pp rel' Let_def tk using jy by simp
    moreover have "last (rn @ CHR ''/'' # join_names ys) = last (join_names ys)"
      using jy by simp
    ultimately show ?thesis using f hy yne ly jx
      by (simp add: path_append_def)
  qed
qed

text \<open>
  The result for such a path with its appended separator: a root, a run of dot-dot
  elements, regular names and the separator.
\<close>

lemma finish_normalize_slash:
  assumes rn: "root_name_form rn" and regs: "list_all regular_name regs"
    and ne: "replicate k ''..'' @ regs \<noteq> []"
  shows "finish_normalize w (rn @ CHR ''/'' # join_names (replicate k ''..'' @ regs) @ ''/'')
           = (if rn = ''//..'' then Inl (InternalCompilerError [])
              else Inr (if k = 0 then rn @ CHR ''/'' # join_names regs @ ''/''
                        else if rn = [] \<and> regs = [] then ''/''
                        else rn @ CHR ''/'' # join_names (regs @ [''.''])))"
proof -
  let ?dd = "replicate k ''..''"
  let ?xs = "?dd @ regs"
  let ?n = "rn @ CHR ''/'' # join_names ?xs @ ''/''"
  let ?n' = "rn @ CHR ''/'' # join_names (?dd @ regs @ [''.''])"
  let ?roots = "(if rn = [] then [] else [rn]) @ [''/'']"
  have dot: "[''.''] = [] \<or> [''.''] = [''.'']" by simp
  note c = clean_parts [OF regs dot]
  have cx: "list_all clean_name ?xs" using c(1) by simp
  have cr: "list_all clean_name regs" using c(2) by simp
  note sp = slash_path [OF rn cx ne]
  note cp' = composed_path [OF rn c(1)]
  have unc: "isUNCPath ?n \<longleftrightarrow> rn \<noteq> []"
    using isUNCPath_root_name_form [of ?n] rn by (simp add: sp(1))
  have root: "(if \<not> isUNCPath ?n \<and> path_eq (root_path ?n) (root_path w)
               then ''/'' else root_path ?n) = rn @ ''/''"
    unfolding unc sp(3) by simp
  have "foldl (\<lambda>prefix segment.
                 if filename_is_dot_dot segment then path_append prefix segment else prefix) []
          (?dd @ regs @ [''.''])
          = foldl path_append [] (filter (\<lambda>s. s = ''..'') (?dd @ regs @ [''.'']))"
    by (rule foldl_dot_dot_clean [OF c(1)])
  also have "\<dots> = foldl path_append [] ?dd"
    by (simp only: filter_dot_dot [OF regs dot])
  also have "\<dots> = join_names ?dd"
    by (rule foldl_path_append_names [OF c(3)])
  finally have ddp: "absoluteDotDotPrefix ?n = Inr (join_names ?dd)"
    unfolding absoluteDotDotPrefix_def sp(4) sp(8) using sp(5) by (simp add: solAssert_def)
  have ddp_Nil: "join_names ?dd = [] \<longleftrightarrow> k = 0"
    using join_names_eq_Nil [OF c(3)] by simp
  let ?ys = "if regs = [] then [''.''] else regs @ [''.'']"
  let ?out = "if k = 0 then rn @ CHR ''/'' # join_names regs @ ''/''
              else rn @ CHR ''/'' # join_names (regs @ [''.''])"
  have out: "(if join_names ?dd = []
              then path_append (rn @ ''/'') (relative_path ?n)
              else path_append (rn @ ''/'')
                     (lexically_relative ?n (path_append (root_path ?n) (join_names ?dd))))
             = ?out"
  proof (cases "k = 0")
    case True
    then show ?thesis
      unfolding ddp_Nil sp(4) using sp(7) by (simp add: path_append_root)
  next
    case False
    have b: "path_append (root_path ?n) (join_names ?dd) = rn @ CHR ''/'' # join_names ?dd"
      unfolding sp(3) by (rule path_append_root [OF starts_name_join [OF c(3)]])
    have e: "path_elems ?n = path_elems ?n'" unfolding sp(6) cp'(5) by simp
    have "lexically_relative ?n (rn @ CHR ''/'' # join_names ?dd)
            = lexically_relative ?n' (rn @ CHR ''/'' # join_names ?dd)"
      unfolding lexically_relative_def e by (rule refl)
    also have "\<dots> = join_names (regs @ [''.''])"
      unfolding lexically_relative_composed [OF rn regs dot] by simp
    finally have l: "lexically_relative ?n (rn @ CHR ''/'' # join_names ?dd)
                       = join_names (regs @ [''.''])" .
    show ?thesis
      unfolding ddp_Nil b l using False starts_name_join [OF c(2)]
      by (simp add: path_append_root)
  qed
  have r: "''..'' \<notin> set regs" using regs by (auto simp: list_all_iff regular_name_def)
  have el: "path_elems ?out = ?roots @ regs @ [''.'']" and ro: "root_name ?out = rn"
  proof -
    show "path_elems ?out = ?roots @ regs @ [''.'']"
    proof (cases "k = 0")
      case True
      with ne have "regs \<noteq> []" by simp
      from slash_path(6) [OF rn cr this] True show ?thesis by simp
    next
      case False
      with composed_path(5) [OF rn c(2)] show ?thesis by simp
    qed
    show "root_name ?out = rn"
    proof (cases "k = 0")
      case True
      with ne have "regs \<noteq> []" by simp
      from slash_path(1) [OF rn cr this] True show ?thesis by simp
    next
      case False
      with composed_path(1) [OF rn c(2)] show ?thesis by simp
    qed
  qed
  have nodd: "hasDotDotSegments ?out \<longleftrightarrow> rn = ''//..''"
    unfolding hasDotDotSegments_iff el ro using r root_name_form_not_names [OF rn] by auto
  have d: "path_elems ''/.'' = [''/'', ''.'']"
    using path_elems_rooted [of "[]" "''.''"]
    by (simp add: root_name_form_def relative_elems_def names_clean ends_with_separator_def)
  have eq: "path_eq ?out ''/.'' \<longleftrightarrow> rn = [] \<and> regs = []"
    unfolding path_eq_def el d using root_name_form_not_names [OF rn] by auto
  have k0: "k = 0 \<Longrightarrow> regs \<noteq> []" using ne by simp
  show ?thesis
    unfolding finish_normalize_def Let_def root ddp
    using sp(5) nodd eq out k0
    by (simp add: solAssert_def generic_string_def)
qed

text \<open>
  With symlink resolution the normalised path is the weakly canonical path, for the
  three dot forms with a separator appended to its last element.
\<close>

lemma normalize_resolving:
  assumes "normalizeCLIPathForVFS fs p True = Inr q"
    and "weakly_canonical fs (current_path fs) = Inr w"
    and "weakly_canonical fs (absolute p w) = Inr c"
  shows "finish_normalize w
           (if (path_eq p ''.'' \<or> path_eq p ''./'' \<or> path_eq p ''../'')
               \<and> \<not> ends_with_separator c
            then path_append (parent_path c) (filename c @ ''/'') else c) = Inr q"
proof -
  let ?n = "if (path_eq p ''.'' \<or> path_eq p ''./'' \<or> path_eq p ''../'')
               \<and> \<not> ends_with_separator c
            then path_append (parent_path c) (filename c @ ''/'') else c"
  have "normalizeCLIPathForVFS fs p True = finish_normalize w ?n"
    unfolding normalize_fold assms(2) by (simp add: Let_def assms(3) generic_string_def)
  with assms(1) show ?thesis by simp
qed

lemma normalize_resolved_form:
  assumes q: "normalizeCLIPathForVFS fs p True = Inr q"
    and w: "weakly_canonical fs (current_path fs) = Inr w"
    and c: "weakly_canonical fs (absolute p w) = Inr c"
    and ab: "is_absolute c" and nf: "lexically_normal c = c"
  shows "(path_eq p ''.'' \<or> path_eq p ''./'' \<or> path_eq p ''../'' \<longrightarrow> \<not> filename_is_dot c)
           \<Longrightarrow> vfs_form q \<or> slash_form q"
    and "path_eq p ''.'' \<or> path_eq p ''./'' \<or> path_eq p ''../''
           \<Longrightarrow> \<not> filename_is_dot c \<Longrightarrow> \<not> hasDotDotSegments c \<Longrightarrow> ends_with_separator q"
proof -
  let ?dots = "path_eq p ''.'' \<or> path_eq p ''./'' \<or> path_eq p ''../''"
  note f = normalize_resolving [OF q w c]
  from ab have rd: "root_directory c \<noteq> []" by (simp add: is_absolute_def)
  define rn where "rn = root_name c"
  have rn: "root_name_form rn" unfolding rn_def by (rule own_decomposition(1) [OF rd])
  from lexically_normal_rooted [OF rd] obtain k regs dot where
    regs: "list_all regular_name regs" and dot: "dot = [] \<or> dot = [''.'']"
    and l0: "lexically_normal c = rn @ CHR ''/'' # join_names (replicate k ''..'' @ regs @ dot)"
    unfolding rn_def by blast
  define xs where "xs = replicate k ''..'' @ regs @ dot"
  from l0 nf have l: "c = rn @ CHR ''/'' # join_names xs" by (simp only: xs_def)
  note cl = clean_parts [OF regs dot]
  have cx: "list_all clean_name xs" unfolding xs_def by (rule cl(1))
  have ends: "ends_with_separator c \<longleftrightarrow> xs = []"
  proof (cases "xs = []")
    case True
    then show ?thesis unfolding l by (simp add: ends_with_separator_def)
  next
    case False
    then have j: "join_names xs \<noteq> []" using join_names_eq_Nil [OF cx] by simp
    from not_ends_with_separator_join [OF cx] j
    have "\<not> ends_with_separator (rn @ CHR ''/'' # join_names xs)"
      by (simp add: ends_with_separator_def)
    with False show ?thesis unfolding l by simp
  qed
  have plain: "vfs_form q"
    "ends_with_separator c \<Longrightarrow> ends_with_separator q"
    if n: "\<not> (?dots \<and> \<not> ends_with_separator c)"
  proof -
    from f have f': "finish_normalize w c = Inr q" by (simp only: n if_False)
    show "vfs_form q" by (rule finish_normalize_vfs_form [OF f' rd nf [symmetric]])
    assume "ends_with_separator c"
    with ends have x: "xs = []" by simp
    then have k: "k = 0" and r: "regs = []" and d: "dot = []" by (simp_all add: xs_def)
    have "finish_normalize w (rn @ CHR ''/'' # join_names (replicate 0 ''..'' @ [] @ []))
            = (if rn = ''//..'' then Inl (InternalCompilerError [])
               else Inr (let ys = (if 0 < (0::nat) \<and> [] @ [] = ([] :: string list) then [''.'']
                                   else [] @ [])
                         in if rn = [] \<and> ys = [''.''] then ''/''
                            else rn @ CHR ''/'' # join_names ys))"
      by (rule finish_normalize_composed [OF rn]) simp_all
    then have "finish_normalize w (rn @ ''/'')
                 = (if rn = ''//..'' then Inl (InternalCompilerError []) else Inr (rn @ ''/''))"
      by simp
    moreover from f' x have "finish_normalize w (rn @ ''/'') = Inr q" unfolding l by simp
    ultimately have "q = rn @ ''/''" by (simp split: if_splits)
    then show "ends_with_separator q" by (simp add: ends_with_separator_def)
  qed
  have special: "(k = 0 \<longrightarrow> slash_form q) \<and> (0 < k \<longrightarrow> vfs_form q)"
    if s: "?dots \<and> \<not> ends_with_separator c" and nd: "\<not> filename_is_dot c"
  proof -
    from s ends have xs: "xs \<noteq> []" by simp
    have fl: "filename c = last xs"
      unfolding l filename_def composed_path(5) [OF rn cx] using xs by simp
    have d: "dot = []"
    proof (rule ccontr)
      assume "dot \<noteq> []"
      with dot have "dot = [''.'']" by simp
      then have "last xs = ''.''" by (simp add: xs_def)
      with fl nd show False by (simp add: filename_is_dot_def)
    qed
    define ys where "ys = replicate k ''..'' @ regs"
    from d have xy: "xs = ys" by (simp add: xs_def ys_def)
    have "path_append (parent_path c) (filename c @ ''/'') = rn @ CHR ''/'' # join_names xs @ ''/''"
      unfolding l by (rule parent_filename_composed [OF rn cx xs])
    with f s have "finish_normalize w (rn @ CHR ''/'' # join_names xs @ ''/'') = Inr q"
      by (simp only: if_True simp_thms)
    then have "finish_normalize w (rn @ CHR ''/'' # join_names (replicate k ''..'' @ regs) @ ''/'') = Inr q"
      by (simp only: xy ys_def)
    moreover have ne': "replicate k ''..'' @ regs \<noteq> []" using xs xy by (simp add: ys_def)
    ultimately have r: "(if rn = ''//..'' then Inl (InternalCompilerError [])
              else Inr (if k = 0 then rn @ CHR ''/'' # join_names regs @ ''/''
                        else if rn = [] \<and> regs = [] then ''/''
                        else rn @ CHR ''/'' # join_names (regs @ [''.'']))) = (Inr q :: exn + path)"
      by (simp only: finish_normalize_slash [OF rn regs ne'])
    have ndd: "rn \<noteq> ''//..''"
    proof
      assume "rn = ''//..''"
      with r show False by simp
    qed
    with r have qq: "q = (if k = 0 then rn @ CHR ''/'' # join_names regs @ ''/''
                        else if rn = [] \<and> regs = [] then ''/''
                        else rn @ CHR ''/'' # join_names (regs @ [''.'']))" by simp
    show ?thesis
    proof (cases "k = 0")
      case True
      with ne' have "regs \<noteq> []" by simp
      with qq True rn ndd regs have "slash_form q"
        unfolding slash_form_def by (intro exI [of _ rn] exI [of _ regs]) simp
      with True show ?thesis by simp
    next
      case False
      have "vfs_form q"
      proof (cases "rn = [] \<and> regs = []")
        case True
        with qq False have "q = [] @ CHR ''/'' # join_names ([] @ [])" by simp
        then show ?thesis unfolding vfs_form_def
          by (intro exI [of _ "[]"]) (simp add: root_name_form_def)
      next
        case nt: False
        with qq False have "q = rn @ CHR ''/'' # join_names (regs @ [''.''])" by simp
        with nt rn ndd regs show ?thesis unfolding vfs_form_def
          by (intro exI [of _ rn] exI [of _ regs] exI [of _ "[''.'']"]) auto
      qed
      with False show ?thesis by simp
    qed
  qed
  show "vfs_form q \<or> slash_form q" if "?dots \<longrightarrow> \<not> filename_is_dot c"
  proof (cases "?dots \<and> \<not> ends_with_separator c")
    case False
    from plain(1) [OF False] show ?thesis by simp
  next
    case True
    with that have "\<not> filename_is_dot c" by simp
    from special [OF True this] show ?thesis by (cases "k = 0") simp_all
  qed
  show "ends_with_separator q"
    if d: "?dots" and nd: "\<not> filename_is_dot c" and dd: "\<not> hasDotDotSegments c"
  proof (cases "ends_with_separator c")
    case True
    then have "\<not> (?dots \<and> \<not> ends_with_separator c)" by simp
    from plain(2) [OF this True] show ?thesis .
  next
    case False
    with d have s: "?dots \<and> \<not> ends_with_separator c" by simp
    have "k = 0"
    proof (rule ccontr)
      assume "k \<noteq> 0"
      then have "''..'' \<in> set xs" by (simp add: xs_def)
      then have "''..'' \<in> set (path_elems c)"
        unfolding l composed_path(5) [OF rn cx] by simp
      with dd show False by (simp add: hasDotDotSegments_iff)
    qed
    with special [OF s nd] have "slash_form q" by simp
    then show ?thesis by (rule slash_form_segments(3))
  qed
qed

section \<open>Segments of a normalised path\<close>

text \<open>
  Claim C3, as amended. A segment is read in both ways: as an element of the path, which
  is what the source iterates over, and as a piece of the string between two separators.
  Whatever the flag, a path returned by \<^verbatim>\<open>normalizeCLIPathForVFS\<close> has no dot-dot
  segment, in either reading. Without symlink resolution it has no dot segment other than
  its last one, again in either reading, the pieces being those after the root name (the
  network name of \<^verbatim>\<open>//./a\<close> is not a segment). With symlink resolution the same holds
  whenever the file system answers as the library documents it: the weakly canonical
  path is absolute and in normal form, and for the inputs \<^verbatim>\<open>.\<close>, \<^verbatim>\<open>./\<close> and \<^verbatim>\<open>../\<close>, to
  which the source appends a separator, its last element is not a dot. For these three
  inputs the result then ends in a separator, provided the weakly canonical path has no
  dot-dot segment.
\<close>

theorem normalize_segments:
  "(normalizeCLIPathForVFS fs p resolveSymlinks = Inr q \<longrightarrow>
      \<not> hasDotDotSegments q \<and> ''..'' \<notin> set (path_elems q) \<and> ''..'' \<notin> set (split_sep q))
   \<and> (normalizeCLIPathForVFS fs p False = Inr q' \<longrightarrow>
        ''.'' \<notin> set (butlast (path_elems q'))
        \<and> ''.'' \<notin> set (butlast (split_sep (after_root_name q'))))
   \<and> (normalizeCLIPathForVFS fs p True = Inr q''
        \<and> weakly_canonical fs (current_path fs) = Inr w
        \<and> weakly_canonical fs (absolute p w) = Inr c
        \<and> is_absolute c \<and> lexically_normal c = c
        \<and> (path_eq p ''.'' \<or> path_eq p ''./'' \<or> path_eq p ''../'' \<longrightarrow> \<not> filename_is_dot c) \<longrightarrow>
        ''.'' \<notin> set (butlast (path_elems q''))
        \<and> ''.'' \<notin> set (butlast (split_sep (after_root_name q'')))
        \<and> ((path_eq p ''.'' \<or> path_eq p ''./'' \<or> path_eq p ''../'') \<and> \<not> hasDotDotSegments c
             \<longrightarrow> ends_with_separator q''))"
proof (intro conjI impI)
  assume "normalizeCLIPathForVFS fs p resolveSymlinks = Inr q"
  from normalize_finish [OF this] obtain w n where "finish_normalize w n = Inr q" by blast
  then show 1: "\<not> hasDotDotSegments q" by (rule finish_normalize_no_dot_dot)
  then show "''..'' \<notin> set (path_elems q)" by (simp add: hasDotDotSegments_iff)
  from 1 show "''..'' \<notin> set (split_sep q)" by (simp add: hasDotDotSegments_pieces)
next
  assume "normalizeCLIPathForVFS fs p False = Inr q'"
  then have v: "vfs_form q'" by (rule normalize_lexical_vfs_form)
  then show "''.'' \<notin> set (butlast (path_elems q'))" by (rule vfs_form_elems(2))
  from v show "''.'' \<notin> set (butlast (split_sep (after_root_name q')))"
    by (rule vfs_form_pieces)
next
  assume h: "normalizeCLIPathForVFS fs p True = Inr q''
        \<and> weakly_canonical fs (current_path fs) = Inr w
        \<and> weakly_canonical fs (absolute p w) = Inr c
        \<and> is_absolute c \<and> lexically_normal c = c
        \<and> (path_eq p ''.'' \<or> path_eq p ''./'' \<or> path_eq p ''../'' \<longrightarrow> \<not> filename_is_dot c)"
  from h have h1: "normalizeCLIPathForVFS fs p True = Inr q''" by (rule conjunct1)
  from h have h2: "weakly_canonical fs (current_path fs) = Inr w"
    by (rule conjunct1 [OF conjunct2])
  from h have h3: "weakly_canonical fs (absolute p w) = Inr c"
    by (rule conjunct1 [OF conjunct2 [OF conjunct2]])
  from h have h4: "is_absolute c"
    by (rule conjunct1 [OF conjunct2 [OF conjunct2 [OF conjunct2]]])
  from h have h5: "lexically_normal c = c"
    by (rule conjunct1 [OF conjunct2 [OF conjunct2 [OF conjunct2 [OF conjunct2]]]])
  from h have h6: "path_eq p ''.'' \<or> path_eq p ''./'' \<or> path_eq p ''../''
                     \<longrightarrow> \<not> filename_is_dot c"
    by (rule conjunct2 [OF conjunct2 [OF conjunct2 [OF conjunct2 [OF conjunct2]]]])
  note F = normalize_resolved_form [OF h1 h2 h3 h4 h5]
  from F(1) [OF h6] have f: "vfs_form q'' \<or> slash_form q''" .
  from f show "''.'' \<notin> set (butlast (path_elems q''))"
    using vfs_form_elems(2) [of q''] slash_form_segments(1) [of q''] by blast
  from f show "''.'' \<notin> set (butlast (split_sep (after_root_name q'')))"
    using vfs_form_pieces [of q''] slash_form_segments(2) [of q''] by blast
  show "ends_with_separator q''"
    if d: "(path_eq p ''.'' \<or> path_eq p ''./'' \<or> path_eq p ''../'') \<and> \<not> hasDotDotSegments c"
  proof -
    from d have d1: "path_eq p ''.'' \<or> path_eq p ''./'' \<or> path_eq p ''../''"
      by (rule conjunct1)
    from d have d2: "\<not> hasDotDotSegments c" by (rule conjunct2)
    from mp [OF h6 d1] have d3: "\<not> filename_is_dot c" .
    from F(2) [OF d1 d3 d2] show ?thesis .
  qed
qed

theorem normalize_segments_witness:
  "normalizeCLIPathForVFS project_fs ''/../../x/./y/../z/'' False = Inr ''/x/z/.''
   \<and> \<not> hasDotDotSegments ''/x/z/.'' \<and> ''..'' \<notin> set (path_elems ''/x/z/.'')
   \<and> ''..'' \<notin> set (split_sep ''/x/z/.'')
   \<and> ''.'' \<notin> set (butlast (path_elems ''/x/z/.''))
   \<and> ''.'' \<notin> set (butlast (split_sep (after_root_name ''/x/z/.'')))
   \<and> normalizeCLIPathForVFS project_fs ''.'' True = Inr ''/project/''
   \<and> weakly_canonical project_fs (current_path project_fs) = Inr ''/project''
   \<and> weakly_canonical project_fs (absolute ''.'' ''/project'') = Inr ''/project''
   \<and> is_absolute ''/project'' \<and> lexically_normal ''/project'' = ''/project''
   \<and> path_eq ''.'' ''.'' \<and> \<not> filename_is_dot ''/project''
   \<and> \<not> hasDotDotSegments ''/project''
   \<and> \<not> hasDotDotSegments ''/project/'' \<and> ''..'' \<notin> set (split_sep ''/project/'')
   \<and> ''.'' \<notin> set (butlast (path_elems ''/project/''))
   \<and> ''.'' \<notin> set (butlast (split_sep (after_root_name ''/project/'')))
   \<and> ends_with_separator ''/project/''
   \<and> normalizeCLIPathForVFS project_fs ''lib/../missing/x.sol'' True
        = Inr ''/project/missing/x.sol''
   \<and> weakly_canonical project_fs (absolute ''lib/../missing/x.sol'' ''/project'')
        = Inr ''/project/missing/x.sol''
   \<and> is_absolute ''/project/missing/x.sol''
   \<and> lexically_normal ''/project/missing/x.sol'' = ''/project/missing/x.sol''
   \<and> ''.'' \<notin> set (butlast (path_elems ''/project/missing/x.sol''))
   \<and> ''.'' \<notin> set (butlast (split_sep (after_root_name ''/project/missing/x.sol'')))"
proof -
  have 1: "normalizeCLIPathForVFS project_fs ''/../../x/./y/../z/'' False = Inr ''/x/z/.''"
    by code_simp
  have 2: "normalizeCLIPathForVFS project_fs ''.'' True = Inr ''/project/''" by code_simp
  have 3: "weakly_canonical project_fs (current_path project_fs) = Inr ''/project''"
    by code_simp
  have 4: "weakly_canonical project_fs (absolute ''.'' ''/project'') = Inr ''/project''"
    by code_simp
  have 5: "is_absolute ''/project''" by code_simp
  have 6: "lexically_normal ''/project'' = ''/project''" by code_simp
  have 7: "path_eq ''.'' ''.''" by (simp add: path_eq_def)
  have 8: "\<not> filename_is_dot ''/project''" by code_simp
  have 9: "normalizeCLIPathForVFS project_fs ''lib/../missing/x.sol'' True
        = Inr ''/project/missing/x.sol''" by code_simp
  have 10: "weakly_canonical project_fs (absolute ''lib/../missing/x.sol'' ''/project'')
        = Inr ''/project/missing/x.sol''" by code_simp
  have 11: "is_absolute ''/project/missing/x.sol''" by code_simp
  have 12: "lexically_normal ''/project/missing/x.sol'' = ''/project/missing/x.sol''"
    by code_simp
  have 13: "\<not> path_eq ''lib/../missing/x.sol'' ''.''
            \<and> \<not> path_eq ''lib/../missing/x.sol'' ''./''
            \<and> \<not> path_eq ''lib/../missing/x.sol'' ''../''" by code_simp
  note A = normalize_segments
    [where fs = project_fs and p = "''/../../x/./y/../z/''" and resolveSymlinks = False
       and q = "''/x/z/.''" and q' = "''/x/z/.''"]
  note B = normalize_segments
    [where fs = project_fs and p = "''.''" and resolveSymlinks = True
       and q = "''/project/''" and q'' = "''/project/''" and w = "''/project''"
       and c = "''/project''"]
  note C = normalize_segments
    [where fs = project_fs and p = "''lib/../missing/x.sol''"
       and q'' = "''/project/missing/x.sol''" and w = "''/project''"
       and c = "''/project/missing/x.sol''"]
  from mp [OF conjunct1 [OF A] 1]
  have a1: "\<not> hasDotDotSegments ''/x/z/.'' \<and> ''..'' \<notin> set (path_elems ''/x/z/.'')
             \<and> ''..'' \<notin> set (split_sep ''/x/z/.'')" .
  from mp [OF conjunct1 [OF conjunct2 [OF A]] 1]
  have a2: "''.'' \<notin> set (butlast (path_elems ''/x/z/.''))
             \<and> ''.'' \<notin> set (butlast (split_sep (after_root_name ''/x/z/.'')))" .
  from mp [OF conjunct1 [OF B] 2]
  have b1: "\<not> hasDotDotSegments ''/project/'' \<and> ''..'' \<notin> set (path_elems ''/project/'')
             \<and> ''..'' \<notin> set (split_sep ''/project/'')" .
  have hb: "path_eq ''.'' ''.'' \<or> path_eq ''.'' ''./'' \<or> path_eq ''.'' ''../''
              \<longrightarrow> \<not> filename_is_dot ''/project''"
    using 8 by (simp only: simp_thms)
  note b = mp [OF conjunct2 [OF conjunct2 [OF B]]
             conjI [OF 2 conjI [OF 3 conjI [OF 4 conjI [OF 5 conjI [OF 6 hb]]]]]]
  from conjunct1 [OF b]
  have b2: "''.'' \<notin> set (butlast (path_elems ''/project/''))" .
  from conjunct1 [OF conjunct2 [OF b]]
  have b3: "''.'' \<notin> set (butlast (split_sep (after_root_name ''/project/'')))" .
  have 14: "\<not> hasDotDotSegments ''/project''" by code_simp
  have db: "path_eq ''.'' ''.'' \<or> path_eq ''.'' ''./'' \<or> path_eq ''.'' ''../''"
    using 7 by (rule disjI1)
  from mp [OF conjunct2 [OF conjunct2 [OF b]] conjI [OF db 14]]
  have b4: "ends_with_separator ''/project/''" .
  have hc: "path_eq ''lib/../missing/x.sol'' ''.'' \<or> path_eq ''lib/../missing/x.sol'' ''./''
              \<or> path_eq ''lib/../missing/x.sol'' ''../''
              \<longrightarrow> \<not> filename_is_dot ''/project/missing/x.sol''"
    using 13 by (simp only: simp_thms)
  note c = mp [OF conjunct2 [OF conjunct2 [OF C]]
             conjI [OF 9 conjI [OF 3 conjI [OF 10 conjI [OF 11 conjI [OF 12 hc]]]]]]
  from conjunct1 [OF c]
  have c2: "''.'' \<notin> set (butlast (path_elems ''/project/missing/x.sol''))" .
  from conjunct1 [OF conjunct2 [OF c]]
  have c3: "''.'' \<notin> set (butlast (split_sep (after_root_name ''/project/missing/x.sol'')))" .
  from 1 a1 a2 2 3 4 5 6 7 8 14 b1 b2 b3 b4 9 10 11 12 c2 c3 show ?thesis
    by (simp only: simp_thms)
qed

text \<open>
  Without symlink resolution the inputs that the claim names, whose last segment is a
  dot form, are normalised to a string whose last piece is a dot: it ends in \<^verbatim>\<open>/.\<close>, not
  in a slash. So are a directory name with a trailing slash and the source unit name
  made of it.
\<close>

theorem normalize_keeps_final_dot:
  "normalizeCLIPathForVFS project_fs ''.'' False = Inr ''/project/.''
   \<and> normalizeCLIPathForVFS project_fs ''./'' False = Inr ''/project/.''
   \<and> normalizeCLIPathForVFS project_fs ''a/b/.'' False = Inr ''/project/a/b/.''
   \<and> normalizeCLIPathForVFS project_fs ''contracts/'' False = Inr ''/project/contracts/.''
   \<and> split_sep ''/project/.'' = [[], ''project'', ''.'']
   \<and> ''.'' \<in> set (split_sep ''/project/.'')
   \<and> ''.'' \<in> set (path_elems ''/project/.'')
   \<and> \<not> ends_with_separator ''/project/.''
   \<and> cliPathToSourceUnitName project_fs project_reader ''contracts/'' = Inr ''contracts/.''"
  by code_simp

section \<open>Idempotence of normalisation\<close>

text \<open>
  Without symlink resolution normalisation is idempotent: a path that
  \<^verbatim>\<open>normalizeCLIPathForVFS\<close> returns is returned unchanged, character by character,
  when it is normalised again.
\<close>

theorem normalize_idempotent_lexically:
  "normalizeCLIPathForVFS fs p False = Inr q \<longrightarrow> normalizeCLIPathForVFS fs q False = Inr q"
proof (rule impI)
  assume "normalizeCLIPathForVFS fs p False = Inr q"
  then show "normalizeCLIPathForVFS fs q False = Inr q" by (rule normalize_lexical_idempotent)
qed

theorem normalize_idempotent_lexically_witness:
  "normalizeCLIPathForVFS project_fs ''contracts/../lib//./Token.sol'' False
     = Inr ''/project/lib/Token.sol''
   \<and> normalizeCLIPathForVFS project_fs ''/project/lib/Token.sol'' False
     = Inr ''/project/lib/Token.sol''
   \<and> normalizeCLIPathForVFS project_fs ''.'' False = Inr ''/project/.''
   \<and> normalizeCLIPathForVFS project_fs ''/project/.'' False = Inr ''/project/.''"
proof -
  have 1: "normalizeCLIPathForVFS project_fs ''contracts/../lib//./Token.sol'' False
     = Inr ''/project/lib/Token.sol''" by code_simp
  have 2: "normalizeCLIPathForVFS project_fs ''.'' False = Inr ''/project/.''" by code_simp
  note A = normalize_idempotent_lexically
    [of project_fs "''contracts/../lib//./Token.sol''" "''/project/lib/Token.sol''"]
  note B = normalize_idempotent_lexically [of project_fs "''.''" "''/project/.''"]
  from mp [OF A 1]
  have 3: "normalizeCLIPathForVFS project_fs ''/project/lib/Token.sol'' False
     = Inr ''/project/lib/Token.sol''" .
  from mp [OF B 2]
  have 4: "normalizeCLIPathForVFS project_fs ''/project/.'' False = Inr ''/project/.''" .
  from 1 3 2 4 show ?thesis by (simp only: simp_thms)
qed

text \<open>
  Claim C2. With symlink resolution normalisation is not idempotent. The working
  directory \<^verbatim>\<open>.\<close> is normalised to a path with a trailing slash, which the source appends
  for the inputs \<^verbatim>\<open>.\<close>, \<^verbatim>\<open>./\<close> and \<^verbatim>\<open>../\<close>. Normalised again, that path (an existing
  directory, and none of the three spellings) loses the slash: \<^verbatim>\<open>weakly_canonical\<close>
  answers without it and nothing puts it back, although the comment of the source says
  that a trailing slash is preserved. The two results differ as strings and as
  element sequences.
\<close>

theorem normalize_resolving_not_idempotent:
  "normalizeCLIPathForVFS project_fs ''.'' True = Inr ''/project/''
   \<and> normalizeCLIPathForVFS project_fs ''/project/'' True = Inr ''/project''
   \<and> ''/project'' \<noteq> ''/project/''
   \<and> \<not> path_eq ''/project'' ''/project/''"
  by code_simp

end
